theory Spec2Isabelle
  imports Complex_Main
begin

section \<open>JavaScript numbers and typed arrays\<close>

text \<open>
  The effect code works on JavaScript numbers (IEEE doubles) and on the
  \<^verbatim>\<open>Uint8ClampedArray\<close> behind \<^verbatim>\<open>ImageData.data\<close>.  Numbers are modelled as
  reals, bytes read from an \<^verbatim>\<open>ImageData\<close> as integers.  Each result below says
  where the difference between doubles and reals could matter.  In Noise it
  does (a sum that lands next to a half is rounded before it is stored), so
  there every arithmetic operation is followed by \<open>toDouble\<close>, the rounding of
  its exact result to the nearest double.
\<close>

definition Math_round :: "real \<Rightarrow> int" where
  \<comment> \<open>\<^verbatim>\<open>Math.round\<close>: nearest integer, halves towards plus infinity\<close>
  "Math_round v = \<lfloor>v + 1 / 2\<rfloor>"

definition toUint8Clamp :: "real \<Rightarrow> int" where
  \<comment> \<open>a store into a \<^verbatim>\<open>Uint8ClampedArray\<close>: clamp to 0..255, round to nearest,
      halves to the even neighbour\<close>
  "toUint8Clamp v =
     (if v \<le> 0 then 0
      else if 255 \<le> v then 255
      else (let f = \<lfloor>v\<rfloor> in
            if real_of_int f + 1 / 2 < v then f + 1
            else if v < real_of_int f + 1 / 2 then f
            else if even f then f else f + 1))"

definition roundTiesToEven :: "real \<Rightarrow> int" where
  \<comment> \<open>nearest integer, halves to the even neighbour\<close>
  "roundTiesToEven v =
     (let f = \<lfloor>v\<rfloor> in
      if real_of_int f + 1 / 2 < v then f + 1
      else if v < real_of_int f + 1 / 2 then f
      else if even f then f else f + 1)"

definition toDouble :: "real \<Rightarrow> real" where
  \<comment> \<open>the IEEE 754 binary64 number nearest to \<open>v\<close>, ties to the even significand:
      53 significant bits, so the spacing at \<open>2 ^ e \<le> \<bar>v\<bar> < 2 ^ (e + 1)\<close> is
      \<open>2 ^ (e - 52)\<close>, and \<open>2 ^ (- 1074)\<close> below \<open>2 ^ (- 1022)\<close>.  Overflow to an
      infinity (from \<open>2 ^ 1024\<close> on) is outside the model.\<close>
  "toDouble v =
     (if v = 0 then 0
      else (let e = max \<lfloor>log 2 \<bar>v\<bar>\<rfloor> (- 1022);
                ulp = 2 powr (real_of_int e - 52)
            in real_of_int (roundTiesToEven (v / ulp)) * ulp))"

section \<open>Data model\<close>

record ImageData =
  width :: nat
  height :: nat
  data :: "int list"

text \<open>
  \<^verbatim>\<open>EffectParams\<close> is the union of the eight parameter interfaces; the dispatcher
  casts it unchecked (\<^verbatim>\<open>params as PixelateParams\<close>), so a cast only decides which
  properties are read.  The model is one record with every property; each
  algorithm reads its own.  \<^verbatim>\<open>pixelSize\<close> is a natural number (the slider emits
  integers from 1 to 120; 0 is kept to show the degenerate loop).
\<close>

datatype ShapeType = circle | diamond | rectangle

record EffectParams =
  pixelSize :: nat
  shapeType :: ShapeType
  dotRadius :: real
  angle :: real
  colorMode :: bool
  radius :: real
  amount :: real
  levels :: real
  intensity :: real
  frequency :: real
  amplitude :: real
  direction :: real
  strength :: real
  sepia :: real
  grain :: real
  vignette :: real

text \<open>
  What the browser supplies and the repository does not implement: the random
  source, image resampling, the CSS blur filter, path filling and gradients.
  \<^verbatim>\<open>random b k\<close> is the value of the \<open>k\<close>-th call of \<^verbatim>\<open>Math.random()\<close> (counted
  from 0) during one effect run.
\<close>

record Browser =
  random :: "nat \<Rightarrow> real"
  drawImageScaled :: "ImageData \<Rightarrow> int \<Rightarrow> int \<Rightarrow> ImageData"
  drawImageBlurred :: "real \<Rightarrow> ImageData \<Rightarrow> ImageData"
  fillShape :: "ShapeType \<Rightarrow> real \<Rightarrow> real \<Rightarrow> real \<Rightarrow> real \<Rightarrow> int \<times> int \<times> int \<Rightarrow> ImageData \<Rightarrow> ImageData"
  drawSoftened :: "real \<Rightarrow> real \<Rightarrow> ImageData \<Rightarrow> ImageData \<Rightarrow> ImageData"
  fillRadialGradient :: "real \<Rightarrow> real \<Rightarrow> real \<Rightarrow> real \<Rightarrow> ImageData \<Rightarrow> ImageData"

text \<open>
  Canvas calls with a fixed meaning.  The canvas is sized to the image and
  cleared before an effect runs, and every \<^verbatim>\<open>drawImage(image, 0, 0)\<close> and
  \<^verbatim>\<open>putImageData(d, 0, 0)\<close> covers it, so the bitmap afterwards is the drawn one.
\<close>

definition drawImage :: "ImageData \<Rightarrow> ImageData \<Rightarrow> ImageData" where
  "drawImage ctx img = img"

definition putImageData :: "ImageData \<Rightarrow> ImageData \<Rightarrow> ImageData" where
  "putImageData ctx imageData = imageData"

definition createImageData :: "nat \<Rightarrow> nat \<Rightarrow> ImageData" where
  "createImageData w h = \<lparr>width = w, height = h, data = replicate (w * h * 4) 0\<rparr>"

definition setPixel :: "int list \<Rightarrow> nat \<Rightarrow> int \<times> int \<times> int \<times> int \<Rightarrow> int list" where
  \<comment> \<open>four stores \<^verbatim>\<open>d[index] = r; d[index + 1] = g; d[index + 2] = b; d[index + 3] = a\<close>
      of integral values; a store outside the array is ignored\<close>
  "setPixel d index px =
     (case px of (r, g, b, a) \<Rightarrow>
        d[index := toUint8Clamp (real_of_int r),
          index + 1 := toUint8Clamp (real_of_int g),
          index + 2 := toUint8Clamp (real_of_int b),
          index + 3 := toUint8Clamp (real_of_int a)])"

definition fillRect_white :: "nat \<Rightarrow> nat \<Rightarrow> ImageData" where
  \<comment> \<open>\<^verbatim>\<open>fillStyle = '#ffffff'; fillRect(0, 0, w, h)\<close>\<close>
  "fillRect_white w h = \<lparr>width = w, height = h, data = replicate (w * h * 4) 255\<rparr>"

section \<open>Noise\<close>

text \<open>
  \<^verbatim>\<open>(Math.random() - 0.5) * params.amount * 2\<close> is two multiplications after a
  subtraction, each rounded to a double; so is the sum \<^verbatim>\<open>data[i] + noise\<close>.
  \<^verbatim>\<open>Math.max\<close> and \<^verbatim>\<open>Math.min\<close> are exact.
\<close>

function noise_loop :: "(nat \<Rightarrow> real) \<Rightarrow> real \<Rightarrow> int list \<Rightarrow> nat \<Rightarrow> nat \<Rightarrow> int list" where
  "noise_loop rnd amt d i k =
     (if i < length d then
        (let noise = toDouble (toDouble (toDouble (rnd k - 0.5) * amt) * 2);
             d1 = d[i := toUint8Clamp (max 0 (min 255 (toDouble (real_of_int (d ! i) + noise))))];
             d2 = d1[i + 1 := toUint8Clamp (max 0 (min 255 (toDouble (real_of_int (d1 ! (i + 1)) + noise))))];
             d3 = d2[i + 2 := toUint8Clamp (max 0 (min 255 (toDouble (real_of_int (d2 ! (i + 2)) + noise))))]
         in noise_loop rnd amt d3 (i + 4) (k + 1))
      else d)"
  by pat_completeness auto
termination
  by (relation "measure (\<lambda>(rnd, amt, d, i, k). length d - i)") auto

declare noise_loop.simps [simp del]

definition applyNoiseEffect :: "Browser \<Rightarrow> ImageData \<Rightarrow> ImageData \<Rightarrow> EffectParams \<Rightarrow> ImageData" where
  "applyNoiseEffect bw ctx img params =
     (let imageData = drawImage ctx img
      in putImageData ctx (imageData\<lparr>data := noise_loop (random bw) (amount params) (data imageData) 0 0\<rparr>))"

section \<open>Posterize\<close>

function quantLevels_from :: "nat \<Rightarrow> nat \<Rightarrow> int list" where
  "quantLevels_from lv i =
     (if i < lv then Math_round ((real i / (real lv - 1)) * 255) # quantLevels_from lv (i + 1)
      else [])"
  by pat_completeness auto
termination
  by (relation "measure (\<lambda>(lv, i). lv - i)") auto

declare quantLevels_from.simps [simp del]

fun quantize_scan :: "int list \<Rightarrow> int \<Rightarrow> int \<Rightarrow> int \<Rightarrow> int" where
  "quantize_scan [] v nearest minDiff = nearest"
| "quantize_scan (q # qs) v nearest minDiff =
     (let diff = \<bar>v - q\<bar>
      in if diff < minDiff then quantize_scan qs v q diff
         else quantize_scan qs v nearest minDiff)"

definition quantize :: "int list \<Rightarrow> int \<Rightarrow> int" where
  \<comment> \<open>the empty table cannot occur (at least two levels); JavaScript would
      store \<^verbatim>\<open>undefined\<close>, which a clamped array turns into 0\<close>
  "quantize quantLevels v =
     (case quantLevels of
        [] \<Rightarrow> 0
      | q0 # rest \<Rightarrow> quantize_scan rest v q0 \<bar>v - q0\<bar>)"

function posterize_loop :: "int list \<Rightarrow> int list \<Rightarrow> nat \<Rightarrow> int list" where
  "posterize_loop quantLevels d i =
     (if i < length d then
        (let d1 = d[i := toUint8Clamp (real_of_int (quantize quantLevels (d ! i)))];
             d2 = d1[i + 1 := toUint8Clamp (real_of_int (quantize quantLevels (d1 ! (i + 1))))];
             d3 = d2[i + 2 := toUint8Clamp (real_of_int (quantize quantLevels (d2 ! (i + 2))))]
         in posterize_loop quantLevels d3 (i + 4))
      else d)"
  by pat_completeness auto
termination
  by (relation "measure (\<lambda>(q, d, i). length d - i)") auto

declare posterize_loop.simps [simp del]

definition posterizeLevels :: "real \<Rightarrow> nat" where
  \<comment> \<open>\<^verbatim>\<open>Math.max(2, Math.floor(params.levels))\<close>\<close>
  "posterizeLevels lv = nat (max 2 \<lfloor>lv\<rfloor>)"

definition applyPosterizeEffect :: "ImageData \<Rightarrow> ImageData \<Rightarrow> EffectParams \<Rightarrow> ImageData" where
  "applyPosterizeEffect ctx img params =
     (let imageData = drawImage ctx img;
          quantLevels = quantLevels_from (posterizeLevels (levels params)) 0
      in putImageData ctx (imageData\<lparr>data := posterize_loop quantLevels (data imageData) 0\<rparr>))"

section \<open>Pixelate\<close>

text \<open>
  Two implementations exist.  \<^verbatim>\<open>src/components/ImageEffectsProcessor.tsx\<close> scales
  the image down and up again with smoothing disabled; the resampling is the
  browser's.  In HOL \<open>x / 0 = 0\<close>; JavaScript yields an infinity or NaN there,
  which a canvas size turns into 0 as well.
\<close>

definition applyPixelateEffect_scaled :: "Browser \<Rightarrow> ImageData \<Rightarrow> ImageData \<Rightarrow> EffectParams \<Rightarrow> ImageData" where
  "applyPixelateEffect_scaled bw ctx img params =
     (let scale = real (pixelSize params);
          smallWidth = \<lceil>real (width img) / scale\<rceil>;
          smallHeight = \<lceil>real (height img) / scale\<rceil>;
          smallCanvas = drawImageScaled bw img smallWidth smallHeight
      in drawImageScaled bw smallCanvas (int (width img)) (int (height img)))"

text \<open>
  \<^verbatim>\<open>src/.github/workflows/components/ImageEffectsProcessor.tsx\<close> averages each tile.
  The tile loops advance by \<^verbatim>\<open>pixelSize\<close>, so they do not end when it is 0:
  the result \<open>None\<close> stands for a run that never returns.
\<close>

definition tile_sums :: "ImageData \<Rightarrow> nat \<Rightarrow> nat \<Rightarrow> nat \<Rightarrow> int \<times> int \<times> int \<times> int \<times> int" where
  "tile_sums originalData ps x y =
     fold (\<lambda>py. fold (\<lambda>px (r, g, b, a, count).
               (let index = (py * width originalData + px) * 4
                in (r + data originalData ! index,
                    g + data originalData ! (index + 1),
                    b + data originalData ! (index + 2),
                    a + data originalData ! (index + 3),
                    count + 1)))
             [x ..< min (x + ps) (width originalData)])
          [y ..< min (y + ps) (height originalData)]
          (0, 0, 0, 0, 0)"

definition tile_fill :: "nat \<Rightarrow> nat \<Rightarrow> nat \<Rightarrow> nat \<Rightarrow> nat \<Rightarrow> int \<times> int \<times> int \<times> int \<Rightarrow> int list \<Rightarrow> int list" where
  "tile_fill w h ps x y px out =
     fold (\<lambda>py. fold (\<lambda>qx d. setPixel d ((py * w + qx) * 4) px) [x ..< min (x + ps) w])
          [y ..< min (y + ps) h] out"

definition pixelate_tile :: "ImageData \<Rightarrow> nat \<Rightarrow> nat \<Rightarrow> nat \<Rightarrow> int list \<Rightarrow> int list" where
  "pixelate_tile originalData ps x y out =
     (case tile_sums originalData ps x y of (r, g, b, a, count) \<Rightarrow>
        tile_fill (width originalData) (height originalData) ps x y
          (Math_round (real_of_int r / real_of_int count),
           Math_round (real_of_int g / real_of_int count),
           Math_round (real_of_int b / real_of_int count),
           Math_round (real_of_int a / real_of_int count)) out)"

partial_function (option) pixelate_cols :: "ImageData \<Rightarrow> nat \<Rightarrow> nat \<Rightarrow> nat \<Rightarrow> int list \<Rightarrow> int list option" where
  "pixelate_cols originalData ps y x out =
     (if x < width originalData
      then pixelate_cols originalData ps y (x + ps) (pixelate_tile originalData ps x y out)
      else Some out)"

partial_function (option) pixelate_rows :: "ImageData \<Rightarrow> nat \<Rightarrow> nat \<Rightarrow> int list \<Rightarrow> int list option" where
  "pixelate_rows originalData ps y out =
     (if y < height originalData
      then Option.bind (pixelate_cols originalData ps y 0 out)
             (\<lambda>out'. pixelate_rows originalData ps (y + ps) out')
      else Some out)"

definition applyPixelateEffect_blocks :: "ImageData \<Rightarrow> ImageData \<Rightarrow> EffectParams \<Rightarrow> ImageData option" where
  "applyPixelateEffect_blocks ctx img params =
     (let imageData = createImageData (width img) (height img);
          originalData = drawImage ctx img
      in map_option (\<lambda>d. putImageData ctx (imageData\<lparr>data := d\<rparr>))
           (pixelate_rows originalData (pixelSize params) 0 (data imageData)))"

section \<open>Halftone\<close>

definition halftone_spacing :: "real \<Rightarrow> real" where
  "halftone_spacing r = (if r \<le> 2 then r * 1.8 else if r \<le> 5 then r * 2.0 else r * 2.5)"

definition halftone_dotSize :: "EffectParams \<Rightarrow> int \<Rightarrow> int \<Rightarrow> int \<Rightarrow> real" where
  "halftone_dotSize params r g b =
     (let brightness = (real_of_int r + real_of_int g + real_of_int b) / 3;
          normalizedBrightness =
            (if colorMode params then brightness / 255 else 1 - brightness / 255);
          dotSize = normalizedBrightness * dotRadius params
      in if dotRadius params \<le> 2
         then max (dotSize * 1.2) (if normalizedBrightness > 0.1 then 0.3 else 0)
         else if dotRadius params \<le> 3
         then max dotSize (if normalizedBrightness > 0.1 then 0.4 else 0)
         else dotSize)"

text \<open>
  One lattice point.  Translation, rotation and the fill of the shape are one
  browser primitive; \<^verbatim>\<open>imageSmoothingEnabled\<close>, set for small radii, does not
  affect a fill and is restored with the drawing state.
\<close>

definition halftone_dot :: "Browser \<Rightarrow> ImageData \<Rightarrow> EffectParams \<Rightarrow> real \<Rightarrow> real \<Rightarrow> ImageData \<Rightarrow> ImageData" where
  "halftone_dot bw imageData params x y ctx =
     (let sampleX = nat \<lfloor>max 0 (min x (real (width imageData) - 1))\<rfloor>;
          sampleY = nat \<lfloor>max 0 (min y (real (height imageData) - 1))\<rfloor>;
          pixelIndex = (sampleY * width imageData + sampleX) * 4;
          r = data imageData ! pixelIndex;
          g = data imageData ! (pixelIndex + 1);
          b = data imageData ! (pixelIndex + 2);
          dotSize = halftone_dotSize params r g b;
          minDotThreshold = (if dotRadius params \<le> 2 then 0.1 else 0.3);
          angleRad = (angle params * pi) / 180
      in if dotSize > minDotThreshold
         then fillShape bw (shapeType params) x y angleRad
                (case shapeType params of
                   rectangle \<Rightarrow> max dotSize (if dotRadius params \<le> 2 then 0.5 else dotSize)
                 | _ \<Rightarrow> dotSize)
                (if colorMode params then (r, g, b) else (0, 0, 0)) ctx
         else ctx)"

partial_function (option) halftone_cols :: "Browser \<Rightarrow> ImageData \<Rightarrow> EffectParams \<Rightarrow> real \<Rightarrow> real \<Rightarrow> real \<Rightarrow> ImageData \<Rightarrow> ImageData option" where
  "halftone_cols bw imageData params spacing y x ctx =
     (if x < real (width imageData)
      then halftone_cols bw imageData params spacing y (x + spacing)
             (halftone_dot bw imageData params x y ctx)
      else Some ctx)"

partial_function (option) halftone_rows :: "Browser \<Rightarrow> ImageData \<Rightarrow> EffectParams \<Rightarrow> real \<Rightarrow> real \<Rightarrow> ImageData \<Rightarrow> ImageData option" where
  "halftone_rows bw imageData params spacing y ctx =
     (if y < real (height imageData)
      then Option.bind (halftone_cols bw imageData params spacing y (spacing / 2) ctx)
             (\<lambda>ctx'. halftone_rows bw imageData params spacing (y + spacing) ctx')
      else Some ctx)"

definition applyHalftoneEffect :: "Browser \<Rightarrow> ImageData \<Rightarrow> ImageData \<Rightarrow> EffectParams \<Rightarrow> ImageData option" where
  "applyHalftoneEffect bw ctx img params =
     (let imageData = drawImage ctx img;
          ctx1 = fillRect_white (width img) (height img);
          spacing = halftone_spacing (dotRadius params)
      in halftone_rows bw imageData params spacing (spacing / 2) ctx1)"

section \<open>Blur\<close>

definition applyBlurEffect :: "Browser \<Rightarrow> ImageData \<Rightarrow> ImageData \<Rightarrow> EffectParams \<Rightarrow> ImageData" where
  "applyBlurEffect bw ctx img params = drawImageBlurred bw (radius params) img"

section \<open>Glass refraction\<close>

definition combinedWave :: "EffectParams \<Rightarrow> nat \<Rightarrow> nat \<Rightarrow> nat \<Rightarrow> nat \<Rightarrow> real" where
  "combinedWave params w h x y =
     (let freqFactor = frequency params * 0.1;
          normalizedX = real x / real w;
          normalizedY = real y / real h;
          wave1 = sin (normalizedX * pi * freqFactor) * cos (normalizedY * pi * freqFactor);
          wave2 = sin (normalizedY * pi * freqFactor * 1.3) * cos (normalizedX * pi * freqFactor * 0.7);
          wave3 = sin ((normalizedX + normalizedY) * pi * freqFactor * 0.8)
      in (wave1 + wave2 * 0.7 + wave3 * 0.5) / 2.2)"

definition glass_source :: "EffectParams \<Rightarrow> nat \<Rightarrow> nat \<Rightarrow> nat \<Rightarrow> nat \<Rightarrow> nat \<times> nat" where
  \<comment> \<open>\<^verbatim>\<open>(clampedX, clampedY)\<close>: the displaced sampling position of output pixel \<open>(x, y)\<close>\<close>
  "glass_source params w h x y =
     (let directionRad = (direction params * pi) / 180;
          cosDir = cos directionRad;
          sinDir = sin directionRad;
          intensityFactor = intensity params / 100;
          ampFactor = amplitude params * intensityFactor;
          wave = combinedWave params w h x y;
          distortionX = wave * ampFactor * cosDir;
          distortionY = wave * ampFactor * sinDir;
          perpDistortionX = wave * ampFactor * 0.3 * (- sinDir);
          perpDistortionY = wave * ampFactor * 0.3 * cosDir;
          sourceX = Math_round (real x + distortionX + perpDistortionX);
          sourceY = Math_round (real y + distortionY + perpDistortionY);
          clampedX = max 0 (min (int w - 1) sourceX);
          clampedY = max 0 (min (int h - 1) sourceY)
      in (nat clampedX, nat clampedY))"

definition glass_pixel :: "ImageData \<Rightarrow> EffectParams \<Rightarrow> nat \<Rightarrow> nat \<Rightarrow> int \<times> int \<times> int \<times> int" where
  "glass_pixel originalData params x y =
     (let w = width originalData;
          h = height originalData;
          intensityFactor = intensity params / 100;
          ampFactor = amplitude params * intensityFactor;
          wave = combinedWave params w h x y;
          (clampedX, clampedY) = glass_source params w h x y;
          sourceIndex = (clampedY * w + clampedX) * 4;
          r0 = data originalData ! sourceIndex;
          g = data originalData ! (sourceIndex + 1);
          b0 = data originalData ! (sourceIndex + 2);
          a = data originalData ! (sourceIndex + 3);
          aberrationOffset = \<lfloor>ampFactor * 0.5\<rfloor>;
          shifted = (intensityFactor > 0.3 \<and> aberrationOffset > 0);
          redX = nat (max 0 (min (int w - 1) (int clampedX + aberrationOffset)));
          blueX = nat (max 0 (min (int w - 1) (int clampedX - aberrationOffset)));
          r = (if shifted then data originalData ! ((clampedY * w + redX) * 4) else r0);
          b = (if shifted then data originalData ! ((clampedY * w + blueX) * 4 + 2) else b0);
          brightnessVariation = sin (wave * pi) * 0.1 * intensityFactor;
          brightnessFactor = 1 + brightnessVariation
      in (max 0 (min 255 (Math_round (real_of_int r * brightnessFactor))),
          max 0 (min 255 (Math_round (real_of_int g * brightnessFactor))),
          max 0 (min 255 (Math_round (real_of_int b * brightnessFactor))),
          a))"

definition glass_warp :: "ImageData \<Rightarrow> EffectParams \<Rightarrow> int list \<Rightarrow> int list" where
  "glass_warp originalData params out =
     fold (\<lambda>y. fold (\<lambda>x d. setPixel d ((y * width originalData + x) * 4)
                                (glass_pixel originalData params x y))
                  [0 ..< width originalData])
          [0 ..< height originalData] out"

definition applyGlassRefractionEffect :: "Browser \<Rightarrow> ImageData \<Rightarrow> ImageData \<Rightarrow> EffectParams \<Rightarrow> ImageData" where
  "applyGlassRefractionEffect bw ctx img params =
     (let originalData = drawImage ctx img;
          outputData0 = createImageData (width img) (height img);
          outputData = outputData0\<lparr>data := glass_warp originalData params (data outputData0)\<rparr>;
          intensityFactor = intensity params / 100;
          ctx1 = putImageData ctx outputData
      in if intensityFactor > 0.5
         then drawSoftened bw (intensityFactor * 0.5) 0.15 outputData ctx1
         else ctx1)"

section \<open>Emboss\<close>

definition emboss_kernel :: "real \<Rightarrow> real list list" where
  "emboss_kernel s =
     [[- 2 * s, - 1 * s, 0],
      [- 1 * s, 1 * s, 1 * s],
      [0, 1 * s, 2 * s]]"

definition emboss_sums :: "ImageData \<Rightarrow> real \<Rightarrow> nat \<Rightarrow> nat \<Rightarrow> real \<times> real \<times> real" where
  "emboss_sums originalData s x y =
     fold (\<lambda>ky. fold (\<lambda>kx (r, g, b).
               (let pixelY = int y + ky;
                    pixelX = int x + kx;
                    pixelIndex = nat ((pixelY * int (width originalData) + pixelX) * 4);
                    kernelValue = emboss_kernel s ! nat (ky + 1) ! nat (kx + 1)
                in (r + real_of_int (data originalData ! pixelIndex) * kernelValue,
                    g + real_of_int (data originalData ! (pixelIndex + 1)) * kernelValue,
                    b + real_of_int (data originalData ! (pixelIndex + 2)) * kernelValue)))
             [- 1, 0, 1])
          [- 1, 0, 1] (0, 0, 0)"

definition emboss_pixel :: "ImageData \<Rightarrow> real \<Rightarrow> nat \<Rightarrow> nat \<Rightarrow> int \<times> int \<times> int \<times> int" where
  "emboss_pixel originalData s x y =
     (case emboss_sums originalData s x y of (r0, g0, b0) \<Rightarrow>
        (let offset = 128;
             r = max 0 (min 255 (Math_round (r0 + offset)));
             g = max 0 (min 255 (Math_round (g0 + offset)));
             b = max 0 (min 255 (Math_round (b0 + offset)));
             gray = Math_round (real_of_int (r + g + b) / 3);
             colorBlend = min 1 (s * 0.3);
             outputIndex = (y * width originalData + x) * 4
         in (Math_round (real_of_int gray * (1 - colorBlend) + real_of_int r * colorBlend),
             Math_round (real_of_int gray * (1 - colorBlend) + real_of_int g * colorBlend),
             Math_round (real_of_int gray * (1 - colorBlend) + real_of_int b * colorBlend),
             data originalData ! (outputIndex + 3))))"

definition emboss_convolve :: "ImageData \<Rightarrow> real \<Rightarrow> int list \<Rightarrow> int list" where
  \<comment> \<open>\<^verbatim>\<open>for (y = 1; y < height - 1; y++) for (x = 1; x < width - 1; x++)\<close>\<close>
  "emboss_convolve originalData s out =
     fold (\<lambda>y. fold (\<lambda>x d. setPixel d ((y * width originalData + x) * 4)
                                (emboss_pixel originalData s x y))
                  [1 ..< width originalData - 1])
          [1 ..< height originalData - 1] out"

definition emboss_edges :: "ImageData \<Rightarrow> int list \<Rightarrow> int list" where
  "emboss_edges originalData out =
     (let w = width originalData; h = height originalData
      in fold (\<lambda>y. fold (\<lambda>x d.
                  if x = 0 \<or> int x = int w - 1 \<or> y = 0 \<or> int y = int h - 1
                  then (let index = (y * w + x) * 4
                        in setPixel d index
                             (data originalData ! index,
                              data originalData ! (index + 1),
                              data originalData ! (index + 2),
                              data originalData ! (index + 3)))
                  else d)
                [0 ..< w])
           [0 ..< h] out)"

definition applyEmbossEffect :: "ImageData \<Rightarrow> ImageData \<Rightarrow> EffectParams \<Rightarrow> ImageData" where
  "applyEmbossEffect ctx img params =
     (let originalData = drawImage ctx img;
          outputData = createImageData (width img) (height img)
      in putImageData ctx
           (outputData\<lparr>data := emboss_edges originalData
                                  (emboss_convolve originalData (strength params) (data outputData))\<rparr>))"

section \<open>Vintage\<close>

function vintage_loop :: "(nat \<Rightarrow> real) \<Rightarrow> EffectParams \<Rightarrow> int list \<Rightarrow> nat \<Rightarrow> nat \<Rightarrow> int list" where
  "vintage_loop rnd params d i k =
     (if i < length d then
        (let r = real_of_int (d ! i);
             g = real_of_int (d ! (i + 1));
             b = real_of_int (d ! (i + 2));
             tr = 0.393 * r + 0.769 * g + 0.189 * b;
             tg = 0.349 * r + 0.686 * g + 0.168 * b;
             tb = 0.272 * r + 0.534 * g + 0.131 * b;
             d1 = d[i := toUint8Clamp (min 255 (r + (tr - r) * (sepia params / 100)))];
             d2 = d1[i + 1 := toUint8Clamp (min 255 (g + (tg - g) * (sepia params / 100)))];
             d3 = d2[i + 2 := toUint8Clamp (min 255 (b + (tb - b) * (sepia params / 100)))];
             gr = (rnd k - 0.5) * grain params;
             d4 = d3[i := toUint8Clamp (max 0 (min 255 (real_of_int (d3 ! i) + gr)))];
             d5 = d4[i + 1 := toUint8Clamp (max 0 (min 255 (real_of_int (d4 ! (i + 1)) + gr)))];
             d6 = d5[i + 2 := toUint8Clamp (max 0 (min 255 (real_of_int (d5 ! (i + 2)) + gr)))]
         in vintage_loop rnd params d6 (i + 4) (k + 1))
      else d)"
  by pat_completeness auto
termination
  by (relation "measure (\<lambda>(rnd, params, d, i, k). length d - i)") auto

declare vintage_loop.simps [simp del]

definition applyVintageEffect :: "Browser \<Rightarrow> ImageData \<Rightarrow> ImageData \<Rightarrow> EffectParams \<Rightarrow> ImageData" where
  "applyVintageEffect bw ctx img params =
     (let imageData = drawImage ctx img;
          ctx1 = putImageData ctx
                   (imageData\<lparr>data := vintage_loop (random bw) params (data imageData) 0 0\<rparr>);
          centerX = real (width img) / 2;
          centerY = real (height img) / 2;
          maxDist = sqrt (centerX * centerX + centerY * centerY)
      in fillRadialGradient bw centerX centerY maxDist (vignette params / 100) ctx1)"

section \<open>Dispatch\<close>

text \<open>
  The effect name is a string at run time.  The first copy of
  \<^verbatim>\<open>processEffectWithOptimizedImage\<close> (line 131) is a \<^verbatim>\<open>switch\<close> without a default
  branch; the later copies (lines 1182 and 2076) add
  \<^verbatim>\<open>default: ctx.drawImage(image, 0, 0)\<close> and wrap the switch in a \<^verbatim>\<open>try\<close> whose
  \<^verbatim>\<open>catch\<close> also draws the unmodified image.  No modelled operation throws, so
  the \<^verbatim>\<open>catch\<close> branch has no counterpart here.  \<open>None\<close> is a run that never
  returns.
\<close>

definition processEffectWithOptimizedImage_nodefault ::
  "Browser \<Rightarrow> ImageData \<Rightarrow> ImageData \<Rightarrow> string \<Rightarrow> EffectParams \<Rightarrow> ImageData option" where
  "processEffectWithOptimizedImage_nodefault bw ctx img effect params =
     (if effect = ''pixelate'' then Some (applyPixelateEffect_scaled bw ctx img params)
      else if effect = ''halftone'' then applyHalftoneEffect bw ctx img params
      else if effect = ''blur'' then Some (applyBlurEffect bw ctx img params)
      else if effect = ''noise'' then Some (applyNoiseEffect bw ctx img params)
      else if effect = ''posterize'' then Some (applyPosterizeEffect ctx img params)
      else if effect = ''glass-refraction'' then Some (applyGlassRefractionEffect bw ctx img params)
      else if effect = ''emboss'' then Some (applyEmbossEffect ctx img params)
      else if effect = ''vintage'' then Some (applyVintageEffect bw ctx img params)
      else Some ctx)"

definition processEffectWithOptimizedImage ::
  "Browser \<Rightarrow> ImageData \<Rightarrow> ImageData \<Rightarrow> string \<Rightarrow> EffectParams \<Rightarrow> ImageData option" where
  "processEffectWithOptimizedImage bw ctx img effect params =
     (if effect = ''pixelate'' then Some (applyPixelateEffect_scaled bw ctx img params)
      else if effect = ''halftone'' then applyHalftoneEffect bw ctx img params
      else if effect = ''blur'' then Some (applyBlurEffect bw ctx img params)
      else if effect = ''noise'' then Some (applyNoiseEffect bw ctx img params)
      else if effect = ''posterize'' then Some (applyPosterizeEffect ctx img params)
      else if effect = ''glass-refraction'' then Some (applyGlassRefractionEffect bw ctx img params)
      else if effect = ''emboss'' then Some (applyEmbossEffect ctx img params)
      else if effect = ''vintage'' then Some (applyVintageEffect bw ctx img params)
      else Some (drawImage ctx img))"

definition effectTypes :: "string list" where
  \<comment> \<open>the members of \<^verbatim>\<open>EffectType\<close>\<close>
  "effectTypes = [''pixelate'', ''halftone'', ''blur'', ''noise'', ''posterize'',
                  ''glass-refraction'', ''emboss'', ''vintage'']"

section \<open>Notions for the results and example values\<close>

text \<open>
  Predicates and abbreviating functions used to state the results, and concrete
  parameters, buffers and a concrete browser for the closed examples.
\<close>

definition initialParams :: EffectParams where
  \<comment> \<open>the initial \<^verbatim>\<open>effectParams\<close> state of the component\<close>
  "initialParams =
     \<lparr>pixelSize = 10, shapeType = circle, dotRadius = 8, angle = 45, colorMode = False,
      radius = 5, amount = 25, levels = 4, intensity = 50, frequency = 8, amplitude = 10,
      direction = 0, strength = 1, sepia = 30, grain = 20, vignette = 40\<rparr>"

definition plainBrowser :: Browser where
  \<comment> \<open>a browser whose random source is constant and whose drawing primitives
      leave the bitmap as it is\<close>
  "plainBrowser =
     \<lparr>random = (\<lambda>k. 7 / 8),
      drawImageScaled = (\<lambda>src w h. src),
      drawImageBlurred = (\<lambda>r src. src),
      fillShape = (\<lambda>shape x y rot size colour ctx. ctx),
      drawSoftened = (\<lambda>r alpha src ctx. ctx),
      fillRadialGradient = (\<lambda>cx cy dist alpha ctx. ctx)\<rparr>"

definition valid_image :: "ImageData \<Rightarrow> bool" where
  \<comment> \<open>what \<^verbatim>\<open>getImageData\<close> returns: four bytes per pixel\<close>
  "valid_image img \<longleftrightarrow>
     length (data img) = width img * height img * 4 \<and> (\<forall>v \<in> set (data img). 0 \<le> v \<and> v \<le> 255)"

definition midGray4x4 :: ImageData where
  "midGray4x4 = \<lparr>width = 4, height = 4, data = concat (replicate 16 [128, 128, 128, 255])\<rparr>"

definition noise_offset :: "real \<Rightarrow> real \<Rightarrow> real" where
  \<comment> \<open>the double \<^verbatim>\<open>(Math.random() - 0.5) * params.amount * 2\<close> for the draw \<open>r\<close>\<close>
  "noise_offset r amt = toDouble (toDouble (toDouble (r - 0.5) * amt) * 2)"

definition noise_store :: "real \<Rightarrow> int \<Rightarrow> int" where
  \<comment> \<open>the byte left by \<^verbatim>\<open>data[i] = Math.max(0, Math.min(255, data[i] + noise))\<close>\<close>
  "noise_store noise v = toUint8Clamp (max 0 (min 255 (toDouble (real_of_int v + noise))))"

definition darkPixel :: ImageData where
  "darkPixel = \<lparr>width = 1, height = 1, data = [10, 10, 10, 255]\<rparr>"

definition tiePixel :: ImageData where
  "tiePixel = \<lparr>width = 1, height = 1, data = [10, 11, 12, 255]\<rparr>"

definition tieDraw :: real where
  \<comment> \<open>a draw whose offset, at amount 1, lies just above one half\<close>
  "tieDraw = 3 / 4 + 1 / 2 ^ 52"

definition tieBrowser :: Browser where
  "tieBrowser = plainBrowser\<lparr>random := (\<lambda>k. tieDraw)\<rparr>"

text \<open>
  Auxiliary notions for the results: the channel \<open>c\<close> of a pixel, and the common
  shape of the pixel loops (for each \<open>y\<close>, for each \<open>x\<close>, write pixel \<open>(x, y)\<close> or skip
  it).
\<close>

definition chan :: "int \<times> int \<times> int \<times> int \<Rightarrow> nat \<Rightarrow> int" where
  "chan px c = (case px of (r, g, b, a) \<Rightarrow> [r, g, b, a] ! c)"

definition raster :: "nat \<Rightarrow> (nat \<Rightarrow> nat \<Rightarrow> (int \<times> int \<times> int \<times> int) option) \<Rightarrow> nat list \<Rightarrow> nat list \<Rightarrow> int list \<Rightarrow> int list" where
  "raster w f ys xs out =
     fold (\<lambda>y. fold (\<lambda>x d. case f x y of None \<Rightarrow> d | Some px \<Rightarrow> setPixel d ((y * w + x) * 4) px) xs) ys out"

definition borderImage :: ImageData where
  "borderImage = \<lparr>width = 3, height = 3,
     data = [5, 53, 175, 115, 129, 217, 123, 103, 157, 29, 231, 251, 89, 1, 243, 47, 181, 133, 159, 3, 177, 169, 235, 119, 77, 109, 215, 139, 137, 209, 99, 63, 101, 213, 143, 147]\<rparr>"





text \<open>Every pixel of the buffer has \<open>R = G = B = 255\<close>; alpha is free.\<close>

definition white_image :: "ImageData \<Rightarrow> bool" where
  "white_image img \<longleftrightarrow>
     length (data img) = width img * height img * 4 \<and>
     (\<forall>p < width img * height img.
        data img ! (p * 4) = 255 \<and> data img ! (p * 4 + 1) = 255 \<and> data img ! (p * 4 + 2) = 255)"

definition whiteImage3x2 :: ImageData where
  "whiteImage3x2 = \<lparr>width = 3, height = 2, data = replicate 24 255\<rparr>"

text \<open>The mean of four samples as the tile loop stores it: \<^verbatim>\<open>Math.round(sum / 4)\<close>.\<close>

definition rounded_mean4 :: "int \<Rightarrow> int \<Rightarrow> int \<Rightarrow> int \<Rightarrow> int" where
  "rounded_mean4 a b c d = Math_round (real_of_int (a + b + c + d) / 4)"

definition unevenImage :: ImageData where
  "unevenImage = \<lparr>width = 2, height = 2,
     data = [0, 10, 20, 255, 0, 10, 20, 255, 0, 10, 20, 255, 1, 10, 20, 255]\<rparr>"

definition inkBrowser :: Browser where
  \<comment> \<open>a browser in which any filled shape blackens the whole bitmap\<close>
  "inkBrowser = plainBrowser\<lparr>fillShape :=
     (\<lambda>shape x y rot size colour ctx. ctx\<lparr>data := replicate (length (data ctx)) 0\<rparr>)\<rparr>"

definition blackImage3x2 :: ImageData where
  "blackImage3x2 = \<lparr>width = 3, height = 2,
     data = [0, 0, 0, 255, 0, 0, 0, 255, 0, 0, 0, 255, 0, 0, 0, 255, 0, 0, 0, 255, 0, 0, 0, 255]\<rparr>"

section \<open>Typed-array stores\<close>

lemma toUint8Clamp_of_int: "toUint8Clamp (real_of_int n) = max 0 (min 255 n)"
  unfolding toUint8Clamp_def by (auto simp: Let_def)

lemma toUint8Clamp_byte: "0 \<le> n \<Longrightarrow> n \<le> 255 \<Longrightarrow> toUint8Clamp (real_of_int n) = n"
  by (simp add: toUint8Clamp_of_int)

lemma toUint8Clamp_range: "0 \<le> toUint8Clamp v \<and> toUint8Clamp v \<le> 255"
  unfolding toUint8Clamp_def Let_def
  by (auto simp: le_floor_iff floor_le_iff)

lemma toUint8Clamp_between:
  assumes "real_of_int lo \<le> v" "v \<le> real_of_int hi" "0 \<le> lo" "hi \<le> 255"
  shows "lo \<le> toUint8Clamp v \<and> toUint8Clamp v \<le> hi"
proof -
  have f1: "lo \<le> \<lfloor>v\<rfloor>" using assms(1) by (simp add: le_floor_iff)
  have f2: "\<lfloor>v\<rfloor> \<le> hi" using assms(2) by (simp add: floor_le_iff)
  have f3: "real_of_int \<lfloor>v\<rfloor> < v \<Longrightarrow> \<lfloor>v\<rfloor> + 1 \<le> hi"
  proof -
    assume "real_of_int \<lfloor>v\<rfloor> < v"
    with assms(2) have "real_of_int \<lfloor>v\<rfloor> < real_of_int hi" by linarith
    then show ?thesis by linarith
  qed
  have lohi: "lo \<le> hi" using assms(1,2) by linarith
  show ?thesis
    unfolding toUint8Clamp_def Let_def using f1 f2 f3 assms lohi
    by (auto simp: not_le not_less) (linarith+)?
qed

lemma upd3_nth:
  "i + m < length d \<Longrightarrow>
   d[i := a, i + 1 := b, i + 2 := c] ! (i + m) =
     (if m = 0 then a else if m = 1 then b else if m = 2 then c else d ! (i + m))"
  by (auto simp: nth_list_update)

section \<open>Posterize: anchors and nearest-anchor quantization\<close>

lemma quantLevels_from_map:
  "quantLevels_from lv i = map (\<lambda>i. Math_round ((real i / (real lv - 1)) * 255)) [i ..< lv]"
proof (induction lv i rule: quantLevels_from.induct)
  case (1 lv i)
  show ?case
  proof (cases "i < lv")
    case True
    with 1 show ?thesis
      by (subst quantLevels_from.simps) (simp add: upt_conv_Cons)
  next
    case False
    then show ?thesis by (subst quantLevels_from.simps) simp
  qed
qed

lemma quantize_scan_first_min:
  assumes "j < length ps" "nearest = ps ! j" "minDiff = \<bar>v - nearest\<bar>"
    "\<forall>k<length ps. minDiff \<le> \<bar>v - ps ! k\<bar>" "\<forall>k<j. minDiff < \<bar>v - ps ! k\<bar>"
  shows "\<exists>j'<length (ps @ qs). quantize_scan qs v nearest minDiff = (ps @ qs) ! j' \<and>
           (\<forall>k<length (ps @ qs). \<bar>v - (ps @ qs) ! j'\<bar> \<le> \<bar>v - (ps @ qs) ! k\<bar>) \<and>
           (\<forall>k<j'. \<bar>v - (ps @ qs) ! j'\<bar> < \<bar>v - (ps @ qs) ! k\<bar>)"
  using assms
proof (induction qs arbitrary: ps j nearest minDiff)
  case Nil
  then show ?case by auto
next
  case (Cons q qs)
  show ?case
  proof (cases "\<bar>v - q\<bar> < minDiff")
    case True
    have "\<exists>j'<length ((ps @ [q]) @ qs). quantize_scan qs v q \<bar>v - q\<bar> = ((ps @ [q]) @ qs) ! j' \<and>
           (\<forall>k<length ((ps @ [q]) @ qs). \<bar>v - ((ps @ [q]) @ qs) ! j'\<bar> \<le> \<bar>v - ((ps @ [q]) @ qs) ! k\<bar>) \<and>
           (\<forall>k<j'. \<bar>v - ((ps @ [q]) @ qs) ! j'\<bar> < \<bar>v - ((ps @ [q]) @ qs) ! k\<bar>)"
    proof (rule Cons.IH[where j = "length ps"])
      show "\<forall>k<length (ps @ [q]). \<bar>v - q\<bar> \<le> \<bar>v - (ps @ [q]) ! k\<bar>"
        using True Cons.prems(4) by (auto simp: nth_append less_Suc_eq)
      show "\<forall>k<length ps. \<bar>v - q\<bar> < \<bar>v - (ps @ [q]) ! k\<bar>"
        using True Cons.prems(4) by (auto simp: nth_append)
    qed simp_all
    with True show ?thesis by simp
  next
    case False
    have "\<exists>j'<length ((ps @ [q]) @ qs). quantize_scan qs v nearest minDiff = ((ps @ [q]) @ qs) ! j' \<and>
           (\<forall>k<length ((ps @ [q]) @ qs). \<bar>v - ((ps @ [q]) @ qs) ! j'\<bar> \<le> \<bar>v - ((ps @ [q]) @ qs) ! k\<bar>) \<and>
           (\<forall>k<j'. \<bar>v - ((ps @ [q]) @ qs) ! j'\<bar> < \<bar>v - ((ps @ [q]) @ qs) ! k\<bar>)"
    proof (rule Cons.IH[where j = j])
      show "j < length (ps @ [q])" using Cons.prems(1) by simp
      show "nearest = (ps @ [q]) ! j" using Cons.prems(1,2) by (simp add: nth_append)
      show "minDiff = \<bar>v - nearest\<bar>" by (rule Cons.prems(3))
      show "\<forall>k<length (ps @ [q]). minDiff \<le> \<bar>v - (ps @ [q]) ! k\<bar>"
        using False Cons.prems(4) by (auto simp: nth_append less_Suc_eq)
      show "\<forall>k<j. minDiff < \<bar>v - (ps @ [q]) ! k\<bar>"
        using Cons.prems(1,5) by (auto simp: nth_append)
    qed
    with False show ?thesis by simp
  qed
qed

lemma quantize_first_min:
  assumes "qs \<noteq> []"
  shows "\<exists>j<length qs. quantize qs v = qs ! j \<and>
           (\<forall>k<length qs. \<bar>v - qs ! j\<bar> \<le> \<bar>v - qs ! k\<bar>) \<and>
           (\<forall>k<j. \<bar>v - qs ! j\<bar> < \<bar>v - qs ! k\<bar>)"
proof -
  from assms obtain q0 rest where qs: "qs = q0 # rest" by (cases qs) auto
  have "\<exists>j'<length ([q0] @ rest). quantize_scan rest v q0 \<bar>v - q0\<bar> = ([q0] @ rest) ! j' \<and>
           (\<forall>k<length ([q0] @ rest). \<bar>v - ([q0] @ rest) ! j'\<bar> \<le> \<bar>v - ([q0] @ rest) ! k\<bar>) \<and>
           (\<forall>k<j'. \<bar>v - ([q0] @ rest) ! j'\<bar> < \<bar>v - ([q0] @ rest) ! k\<bar>)"
    by (rule quantize_scan_first_min[where j = 0]) simp_all
  then show ?thesis by (simp add: qs quantize_def)
qed

lemma quantize_mem: "qs \<noteq> [] \<Longrightarrow> quantize qs v \<in> set qs"
  using quantize_first_min[of qs v] by (auto simp: in_set_conv_nth)

lemma quantize_fix: assumes "a \<in> set qs" shows "quantize qs a = a"
proof -
  from assms have ne: "qs \<noteq> []" by auto
  from assms obtain k where k: "k < length qs" "qs ! k = a" by (auto simp: in_set_conv_nth)
  from quantize_first_min[OF ne, of a] obtain j where
    j: "quantize qs a = qs ! j" "\<forall>k<length qs. \<bar>a - qs ! j\<bar> \<le> \<bar>a - qs ! k\<bar>" by blast
  from j(2) k have "\<bar>a - qs ! j\<bar> \<le> 0" by fastforce
  with j(1) show ?thesis by simp
qed

lemma quantize_idem: "quantize qs (quantize qs v) = quantize qs v"
proof (cases "qs = []")
  case True then show ?thesis by (simp add: quantize_def)
next
  case False then show ?thesis by (simp add: quantize_fix quantize_mem)
qed

lemma posterize_loop_length: "length (posterize_loop qs d i) = length d"
proof (induction qs d i rule: posterize_loop.induct)
  case (1 qs d i)
  show ?case
  proof (cases "i < length d")
    case True
    define d1 where "d1 = d[i := toUint8Clamp (real_of_int (quantize qs (d ! i)))]"
    define d2 where "d2 = d1[i + 1 := toUint8Clamp (real_of_int (quantize qs (d1 ! (i + 1))))]"
    define d3 where "d3 = d2[i + 2 := toUint8Clamp (real_of_int (quantize qs (d2 ! (i + 2))))]"
    have len: "length d3 = length d" by (simp add: d1_def d2_def d3_def)
    have step: "posterize_loop qs d i = posterize_loop qs d3 (i + 4)"
      using True by (subst posterize_loop.simps) (simp add: Let_def d1_def d2_def d3_def)
    have "length (posterize_loop qs d3 (i + 4)) = length d3"
      by (rule "1.IH"[OF True d1_def d2_def d3_def])
    then show ?thesis by (simp only: step len)
  next
    case False
    then show ?thesis by (subst posterize_loop.simps) simp
  qed
qed

lemma posterize_loop_below:
  "j < i \<Longrightarrow> j < length d \<Longrightarrow> posterize_loop qs d i ! j = d ! j"
proof (induction qs d i rule: posterize_loop.induct)
  case (1 qs d i)
  show ?case
  proof (cases "i < length d")
    case True
    define d1 where "d1 = d[i := toUint8Clamp (real_of_int (quantize qs (d ! i)))]"
    define d2 where "d2 = d1[i + 1 := toUint8Clamp (real_of_int (quantize qs (d1 ! (i + 1))))]"
    define d3 where "d3 = d2[i + 2 := toUint8Clamp (real_of_int (quantize qs (d2 ! (i + 2))))]"
    have step: "posterize_loop qs d i = posterize_loop qs d3 (i + 4)"
      using True by (subst posterize_loop.simps) (simp add: Let_def d1_def d2_def d3_def)
    have j3: "j < length d3" "j < i + 4" using "1.prems" by (simp_all add: d1_def d2_def d3_def)
    have "posterize_loop qs d3 (i + 4) ! j = d3 ! j"
      by (rule "1.IH"[OF True d1_def d2_def d3_def j3(2) j3(1)])
    moreover have "d3 ! j = d ! j"
      using "1.prems" by (simp add: d1_def d2_def d3_def)
    ultimately show ?thesis by (simp only: step)
  next
    case False
    then show ?thesis by (subst posterize_loop.simps) simp
  qed
qed

lemma posterize_loop_above:
  "i + m < length d \<Longrightarrow>
   posterize_loop qs d i ! (i + m) =
     (if m mod 4 \<noteq> 3 then toUint8Clamp (real_of_int (quantize qs (d ! (i + m)))) else d ! (i + m))"
proof (induction qs d i arbitrary: m rule: posterize_loop.induct)
  case (1 qs d i)
  have True: "i < length d" using "1.prems" by simp
  define d1 where "d1 = d[i := toUint8Clamp (real_of_int (quantize qs (d ! i)))]"
  define d2 where "d2 = d1[i + 1 := toUint8Clamp (real_of_int (quantize qs (d1 ! (i + 1))))]"
  define d3 where "d3 = d2[i + 2 := toUint8Clamp (real_of_int (quantize qs (d2 ! (i + 2))))]"
  have len: "length d3 = length d" by (simp add: d1_def d2_def d3_def)
  have step: "posterize_loop qs d i = posterize_loop qs d3 (i + 4)"
    using True by (subst posterize_loop.simps) (simp add: Let_def d1_def d2_def d3_def)
  have d3_eq: "d3 = d[i := toUint8Clamp (real_of_int (quantize qs (d ! i))),
                      i + 1 := toUint8Clamp (real_of_int (quantize qs (d ! (i + 1)))),
                      i + 2 := toUint8Clamp (real_of_int (quantize qs (d ! (i + 2))))]"
    by (simp add: d1_def d2_def d3_def)
  have d3j: "d3 ! (i + m) = (if m < 3 then toUint8Clamp (real_of_int (quantize qs (d ! (i + m)))) else d ! (i + m))"
  proof -
    have m3: "m < 3 \<longleftrightarrow> m = 0 \<or> m = 1 \<or> m = 2" by arith
    show ?thesis unfolding d3_eq upd3_nth[OF "1.prems"] m3 by auto
  qed
  show ?case
  proof (cases "m < 4")
    case True
    have "posterize_loop qs d3 (i + 4) ! (i + m) = d3 ! (i + m)"
      using True "1.prems" len by (intro posterize_loop_below) simp_all
    moreover have "m mod 4 = m" using True by simp
    moreover have "m < 3 \<longleftrightarrow> m \<noteq> 3" using True by arith
    ultimately show ?thesis unfolding step d3j by simp
  next
    case False
    then obtain m' where m': "m = m' + 4" by (metis add.commute le_Suc_ex not_less)
    have lt: "(i + 4) + m' < length d3" using "1.prems" len m' by simp
    have idx: "i + 4 + m' = i + m" using m' by simp
    have mm: "m' mod 4 = m mod 4" using m' by simp
    have d3m: "d3 ! (i + m) = d ! (i + m)" using False d3j by simp
    have "posterize_loop qs d3 (i + 4) ! ((i + 4) + m') =
       (if m' mod 4 \<noteq> 3 then toUint8Clamp (real_of_int (quantize qs (d3 ! ((i + 4) + m')))) else d3 ! ((i + 4) + m'))"
      by (rule "1.IH"[OF \<open>i < length d\<close> d1_def d2_def d3_def lt])
    then show ?thesis unfolding step idx mm d3m .
  qed
qed

lemma posterize_loop_nth:
  "j < length d \<Longrightarrow>
   posterize_loop qs d 0 ! j =
     (if j mod 4 \<noteq> 3 then toUint8Clamp (real_of_int (quantize qs (d ! j))) else d ! j)"
  using posterize_loop_above[of 0 j d qs] by simp

lemma posterizeLevels_ge2: "2 \<le> posterizeLevels lv"
  by (simp add: posterizeLevels_def)

lemma anchor_range:
  assumes "2 \<le> lv" "i < lv"
  shows "0 \<le> Math_round ((real i / (real lv - 1)) * 255) \<and> Math_round ((real i / (real lv - 1)) * 255) \<le> 255"
proof -
  have pos: "0 < real lv - 1" using assms(1) by simp
  define q where "q = real i / (real lv - 1)"
  have "real i \<le> real lv - 1" using assms(2) by linarith
  then have "q \<le> 1" using pos by (simp add: q_def divide_le_eq)
  moreover have "0 \<le> q" using pos by (simp add: q_def)
  ultimately have "0 \<le> q * 255" "q * 255 \<le> 255"
    by simp_all
  then show ?thesis unfolding Math_round_def q_def[symmetric]
    by (simp add: le_floor_iff floor_le_iff)
qed

lemma quantLevels_range:
  assumes "2 \<le> lv" "a \<in> set (quantLevels_from lv 0)"
  shows "0 \<le> a \<and> a \<le> 255"
  using assms anchor_range[OF assms(1)] by (auto simp: quantLevels_from_map)

lemma quantLevels_nonempty: "2 \<le> lv \<Longrightarrow> quantLevels_from lv 0 \<noteq> []"
  by (simp add: quantLevels_from_map)

lemma posterize_store:
  assumes "2 \<le> lv"
  shows "toUint8Clamp (real_of_int (quantize (quantLevels_from lv 0) v)) = quantize (quantLevels_from lv 0) v"
  using quantLevels_range[OF assms quantize_mem[OF quantLevels_nonempty[OF assms]]]
  by (simp add: toUint8Clamp_byte)

lemma posterize_data:
  assumes "j < length (data img)"
  shows "data (applyPosterizeEffect ctx img params) ! j =
     (if j mod 4 = 3 then data img ! j
      else quantize (quantLevels_from (posterizeLevels (levels params)) 0) (data img ! j))"
  using assms
  by (simp add: applyPosterizeEffect_def drawImage_def putImageData_def Let_def
      posterize_loop_nth posterize_store posterizeLevels_ge2)

lemma posterize_shape:
  "width (applyPosterizeEffect ctx img params) = width img \<and>
   height (applyPosterizeEffect ctx img params) = height img \<and>
   length (data (applyPosterizeEffect ctx img params)) = length (data img)"
  by (simp add: applyPosterizeEffect_def drawImage_def putImageData_def Let_def posterize_loop_length)

lemma Math_round_mono: "a \<le> b \<Longrightarrow> Math_round a \<le> Math_round b"
  unfolding Math_round_def by (intro floor_mono) simp

lemma quantLevels_sorted:
  assumes "2 \<le> lv"
  shows "sorted (quantLevels_from lv 0)"
proof -
  have pos: "0 < real lv - 1" using assms by simp
  have "Math_round ((real i / (real lv - 1)) * 255) \<le> Math_round ((real j / (real lv - 1)) * 255)"
    if "i \<le> j" for i j :: nat
  proof (rule Math_round_mono)
    have "real i / (real lv - 1) \<le> real j / (real lv - 1)"
      using that pos by (simp add: divide_right_mono)
    then show "real i / (real lv - 1) * 255 \<le> real j / (real lv - 1) * 255"
      by (rule mult_right_mono) simp
  qed
  then show ?thesis
    by (simp add: quantLevels_from_map sorted_iff_nth_mono)
qed

text \<open>
  Claim C4.  With \<open>L\<close> the effective level count \<^verbatim>\<open>Math.max(2, Math.floor(levels))\<close>,
  which is \<open>levels\<close> itself for every integral \<open>levels \<ge> 2\<close>, Posterize builds the \<open>L\<close> anchors \<open>round (255 * i / (L - 1))\<close> for \<open>i\<close> in \<open>[0, L)\<close>;
  the table is ascending; \<^verbatim>\<open>quantize\<close> returns an anchor at least distance from the
  sample, and among equally near anchors the first in table order; every R, G and B byte of the
  output is the quantized input byte and alpha is kept; with two levels the
  anchors are 0 and 255 and the sample 128 goes to 255.  In doubles the anchor
  \<^verbatim>\<open>Math.round((i / (levels - 1)) * 255)\<close> agrees with the real value: the only
  half-way case is \<open>i / (L - 1) = 1 / 2\<close>, which is exact.
\<close>

theorem posterize_nearest_anchor:
  "(let L = posterizeLevels (levels params);
        quantLevels = quantLevels_from L 0;
        out = data (applyPosterizeEffect ctx img params)
    in L = nat (max 2 \<lfloor>levels params\<rfloor>)
       \<and> (\<forall>n\<ge>2. levels params = real n \<longrightarrow> L = n)
       \<and> 2 \<le> L \<and> length quantLevels = L
       \<and> (\<forall>i<L. quantLevels ! i = Math_round (255 * real i / (real L - 1)))
       \<and> sorted quantLevels
       \<and> (\<forall>v. \<exists>j<L. quantize quantLevels v = quantLevels ! j
                \<and> (\<forall>k<L. \<bar>v - quantLevels ! j\<bar> \<le> \<bar>v - quantLevels ! k\<bar>)
                \<and> (\<forall>k<j. \<bar>v - quantLevels ! j\<bar> < \<bar>v - quantLevels ! k\<bar>))
       \<and> length out = length (data img)
       \<and> (\<forall>j<length (data img).
              out ! j = (if j mod 4 = 3 then data img ! j else quantize quantLevels (data img ! j)))
       \<and> (levels params = 2 \<longrightarrow> quantLevels = [0, 255] \<and> quantize quantLevels 128 = 255))"
proof -
  define L where "L = posterizeLevels (levels params)"
  define qs where "qs = quantLevels_from L 0"
  have L2: "2 \<le> L" by (simp add: L_def posterizeLevels_ge2)
  have len: "length qs = L" by (simp add: qs_def quantLevels_from_map)
  have anchors: "\<forall>i<L. qs ! i = Math_round (255 * real i / (real L - 1))"
    by (simp add: qs_def quantLevels_from_map mult.commute)
  have ne: "qs \<noteq> []" using L2 len by auto
  have nearest: "\<forall>v. \<exists>j<L. quantize qs v = qs ! j
                \<and> (\<forall>k<L. \<bar>v - qs ! j\<bar> \<le> \<bar>v - qs ! k\<bar>)
                \<and> (\<forall>k<j. \<bar>v - qs ! j\<bar> < \<bar>v - qs ! k\<bar>)"
    using quantize_first_min[OF ne] len by simp
  have out: "\<forall>j<length (data img). data (applyPosterizeEffect ctx img params) ! j =
      (if j mod 4 = 3 then data img ! j else quantize qs (data img ! j))"
    by (simp add: posterize_data qs_def L_def)
  have two: "levels params = 2 \<longrightarrow> qs = [0, 255] \<and> quantize qs 128 = 255"
  proof
    assume l2: "levels params = 2"
    have "L = 2" by (simp add: L_def l2 posterizeLevels_def)
    then have "qs = [0, 255]"
      by (simp add: qs_def quantLevels_from_map upt_conv_Cons Math_round_def)
    then show "qs = [0, 255] \<and> quantize qs 128 = 255"
      by (simp add: quantize_def)
  qed
  have asc: "sorted qs" unfolding qs_def by (rule quantLevels_sorted[OF L2])
  have count: "L = nat (max 2 \<lfloor>levels params\<rfloor>)" by (simp add: L_def posterizeLevels_def)
  have integral: "\<forall>n\<ge>2. levels params = real n \<longrightarrow> L = n"
    unfolding count by auto
  show ?thesis
    unfolding Let_def L_def[symmetric] qs_def[symmetric]
    using count integral L2 len anchors asc nearest out two posterize_shape[of ctx img params]
    by blast
qed

theorem posterize_nearest_anchor_witness:
  "quantLevels_from (posterizeLevels 2) 0 = [0, 255]
   \<and> quantize (quantLevels_from (posterizeLevels 2) 0) 128 = 255
   \<and> data (applyPosterizeEffect (createImageData 4 4) midGray4x4 (initialParams\<lparr>levels := 2\<rparr>)) ! 0 = 255
   \<and> data (applyPosterizeEffect (createImageData 4 4) midGray4x4 (initialParams\<lparr>levels := 2\<rparr>)) ! 3 = 255
   \<and> posterizeLevels (levels initialParams) = 4
   \<and> quantLevels_from (posterizeLevels (levels initialParams)) 0 ! 2 = 170
   \<and> data (applyPosterizeEffect (createImageData 4 4) midGray4x4 initialParams) ! 0 = 170"
proof -
  let ?p = "initialParams\<lparr>levels := 2\<rparr>"
  have lv: "levels ?p = 2" by simp
  have len: "(0::nat) < length (data midGray4x4)" "(3::nat) < length (data midGray4x4)"
    by code_simp+
  have d0: "data midGray4x4 ! 0 = 128" "data midGray4x4 ! 3 = 255"
    by code_simp+
  have two: "quantLevels_from (posterizeLevels 2) 0 = [0, 255]
   \<and> quantize (quantLevels_from (posterizeLevels 2) 0) 128 = 255
   \<and> data (applyPosterizeEffect (createImageData 4 4) midGray4x4 ?p) ! 0 = 255
   \<and> data (applyPosterizeEffect (createImageData 4 4) midGray4x4 ?p) ! 3 = 255"
    using posterize_nearest_anchor[of ?p "createImageData 4 4" midGray4x4]
    unfolding Let_def lv using len d0 by (auto simp: Let_def)
  let ?L = "posterizeLevels (levels initialParams)"
  let ?qs = "quantLevels_from ?L 0"
  let ?out = "data (applyPosterizeEffect (createImageData 4 4) midGray4x4 initialParams)"
  have four: "levels initialParams = real 4" by (simp add: initialParams_def)
  note t = posterize_nearest_anchor[of initialParams "createImageData 4 4" midGray4x4, unfolded Let_def]
  have L4: "?L = 4"
    using t[THEN conjunct2, THEN conjunct1, rule_format, of 4] four by simp
  have a: "\<forall>i<?L. ?qs ! i = Math_round (255 * real i / (real ?L - 1))"
    by (rule t[THEN conjunct2, THEN conjunct2, THEN conjunct2, THEN conjunct2, THEN conjunct1])
  have q: "?qs ! 0 = 0" "?qs ! 1 = 85" "?qs ! 2 = 170" "?qs ! 3 = 255"
    using a unfolding L4 by (simp_all add: Math_round_def)
  have o: "\<forall>j<length (data midGray4x4).
              ?out ! j = (if j mod 4 = 3 then data midGray4x4 ! j else quantize ?qs (data midGray4x4 ! j))"
    by (rule t[THEN conjunct2, THEN conjunct2, THEN conjunct2, THEN conjunct2, THEN conjunct2,
                 THEN conjunct2, THEN conjunct2, THEN conjunct2, THEN conjunct1])
  have n: "\<exists>j<?L. quantize ?qs 128 = ?qs ! j
                \<and> (\<forall>k<?L. \<bar>128 - ?qs ! j\<bar> \<le> \<bar>128 - ?qs ! k\<bar>)
                \<and> (\<forall>k<j. \<bar>128 - ?qs ! j\<bar> < \<bar>128 - ?qs ! k\<bar>)"
    by (rule t[THEN conjunct2, THEN conjunct2, THEN conjunct2, THEN conjunct2, THEN conjunct2,
                 THEN conjunct2, THEN conjunct1, rule_format])
  then obtain j where j: "j < 4" "quantize ?qs 128 = ?qs ! j"
      "\<forall>k<4. \<bar>128 - ?qs ! j\<bar> \<le> \<bar>128 - ?qs ! k\<bar>"
    unfolding L4 by blast
  from j(1) consider "j = 0" | "j = 1" | "j = 2" | "j = 3" by linarith
  then have "quantize ?qs 128 = 170"
  proof cases
    case 1 with j(3)[rule_format, of 2] q show ?thesis by simp
  next
    case 2 with j(3)[rule_format, of 2] q show ?thesis by simp
  next
    case 3 with j(2) q show ?thesis by simp
  next
    case 4 with j(3)[rule_format, of 2] q show ?thesis by simp
  qed
  then have "?out ! 0 = 170" using o[rule_format, OF len(1)] d0 by simp
  with two L4 q(3) show ?thesis by blast
qed

text \<open>
  Claim C5.  Quantization is idempotent for every sample value (in particular
  for every byte), and every R, G and B byte of a posterized buffer is one of
  the anchors.
\<close>

theorem posterize_idempotent_on_anchors:
  "(let quantLevels = quantLevels_from (posterizeLevels (levels params)) 0
    in (\<forall>x. quantize quantLevels (quantize quantLevels x) = quantize quantLevels x)
       \<and> (\<forall>j<length (data img). j mod 4 \<noteq> 3 \<longrightarrow>
             data (applyPosterizeEffect ctx img params) ! j \<in> set quantLevels))"
proof -
  have "quantLevels_from (posterizeLevels (levels params)) 0 \<noteq> []"
    by (rule quantLevels_nonempty[OF posterizeLevels_ge2])
  then show ?thesis
    by (simp add: Let_def quantize_idem posterize_data quantize_mem)
qed

theorem posterize_idempotent_on_anchors_witness:
  "quantize (quantLevels_from (posterizeLevels 4) 0) (quantize (quantLevels_from (posterizeLevels 4) 0) 100)
     = quantize (quantLevels_from (posterizeLevels 4) 0) 100
   \<and> data (applyPosterizeEffect (createImageData 4 4) midGray4x4 initialParams) ! 0
       \<in> set (quantLevels_from (posterizeLevels 4) 0)"
proof -
  have lv: "levels initialParams = 4" by (simp add: initialParams_def)
  have len: "(0::nat) < length (data midGray4x4)" by code_simp
  from posterize_idempotent_on_anchors[of initialParams midGray4x4 "createImageData 4 4"]
  show ?thesis unfolding Let_def lv using len by auto
qed

section \<open>Noise: one offset per pixel, bounded change\<close>

subsection \<open>Rounding to a double\<close>

lemma roundTiesToEven_between:
  assumes "real_of_int p \<le> t" "t \<le> real_of_int q"
  shows "p \<le> roundTiesToEven t \<and> roundTiesToEven t \<le> q"
proof -
  have f1: "p \<le> \<lfloor>t\<rfloor>" using assms(1) by (simp add: le_floor_iff)
  have f2: "\<lfloor>t\<rfloor> \<le> q" using assms(2) by (simp add: floor_le_iff)
  have f3: "\<lfloor>t\<rfloor> + 1 \<le> q" if "real_of_int \<lfloor>t\<rfloor> < t"
  proof -
    from that assms(2) have "real_of_int \<lfloor>t\<rfloor> < real_of_int q" by linarith
    then show ?thesis by linarith
  qed
  show ?thesis
    unfolding roundTiesToEven_def Let_def using f1 f2 f3
    by (auto simp: not_le not_less) (linarith+)?
qed

text \<open>
  Rounding to a double does not cross a multiple of \<open>2 ^ (- k)\<close>, as long as the
  number is below \<open>2 ^ (53 - k)\<close> in magnitude: such multiples are doubles.
\<close>

lemma toDouble_between:
  fixes a b :: int and k :: nat
  assumes k: "k \<le> 52" and small: "\<bar>x\<bar> * 2 ^ k < 2 ^ 53"
    and lo: "real_of_int a / 2 ^ k \<le> x" and hi: "x \<le> real_of_int b / 2 ^ k"
  shows "real_of_int a / 2 ^ k \<le> toDouble x \<and> toDouble x \<le> real_of_int b / 2 ^ k"
proof (cases "x = 0")
  case True
  then show ?thesis using lo hi by (simp add: toDouble_def)
next
  case False
  define e where "e = max \<lfloor>log 2 \<bar>x\<bar>\<rfloor> (- 1022)"
  define u where "u = 2 powr (real_of_int e - 52)"
  have u_pos: "0 < u" by (simp add: u_def)
  have ax: "0 < \<bar>x\<bar>" using False by simp
  have "\<bar>x\<bar> < 2 ^ 53 / 2 ^ k" using small by (simp add: field_simps)
  also have "\<dots> = 2 powr (53 - real k)"
    by (simp add: powr_diff powr_realpow[symmetric])
  finally have "log 2 \<bar>x\<bar> < 53 - real k" using ax by (simp add: log_less_iff)
  then have "\<lfloor>log 2 \<bar>x\<bar>\<rfloor> \<le> 52 - int k" by linarith
  then have e_le: "e \<le> 52 - int k" using k by (simp add: e_def)
  define n where "n = nat (52 - int k - e)"
  have n: "real n = 52 - real k - real_of_int e" using e_le by (simp add: n_def)
  have "u * 2 ^ n = 2 powr (real_of_int e - 52) * 2 powr (real n)"
    by (simp add: u_def powr_realpow)
  also have "\<dots> = 2 powr (- real k)" unfolding powr_add[symmetric] n by simp
  also have "\<dots> = 1 / 2 ^ k" by (simp add: powr_minus powr_realpow inverse_eq_divide)
  finally have grid: "u * 2 ^ n = 1 / 2 ^ k" .
  have conv: "real_of_int c / 2 ^ k = real_of_int (c * 2 ^ n) * u" for c :: int
  proof -
    have "real_of_int (c * 2 ^ n) * u = real_of_int c * (u * 2 ^ n)" by simp
    then show ?thesis unfolding grid by simp
  qed
  have "real_of_int (a * 2 ^ n) \<le> x / u" "x / u \<le> real_of_int (b * 2 ^ n)"
    using lo hi u_pos unfolding conv[of a] conv[of b] by (simp_all add: field_simps)
  then have r: "a * 2 ^ n \<le> roundTiesToEven (x / u)" "roundTiesToEven (x / u) \<le> b * 2 ^ n"
    using roundTiesToEven_between by blast+
  have td: "toDouble x = real_of_int (roundTiesToEven (x / u)) * u"
    using False by (simp add: toDouble_def Let_def e_def u_def)
  have "real_of_int (a * 2 ^ n) * u \<le> toDouble x" "toDouble x \<le> real_of_int (b * 2 ^ n) * u"
    unfolding td using r u_pos by (simp_all only: mult_le_cancel_right_pos of_int_le_iff)
  then show ?thesis unfolding conv[of a] conv[of b] by simp
qed

lemma toDouble_zero: "toDouble 0 = 0"
  by (simp add: toDouble_def)

lemma toDouble_dyadic:
  fixes a :: int and k :: nat
  assumes "k \<le> 52" "\<bar>real_of_int a\<bar> < 2 ^ 53"
  shows "toDouble (real_of_int a / 2 ^ k) = real_of_int a / 2 ^ k"
proof -
  have "\<bar>real_of_int a / 2 ^ k\<bar> * 2 ^ k < 2 ^ 53" using assms(2) by (simp add: abs_divide)
  from toDouble_between[OF assms(1) this order_refl order_refl] show ?thesis by linarith
qed

lemma toDouble_int_bounds:
  fixes a b :: int
  assumes "\<bar>x\<bar> < 2 ^ 53" "real_of_int a \<le> x" "x \<le> real_of_int b"
  shows "real_of_int a \<le> toDouble x \<and> toDouble x \<le> real_of_int b"
  using toDouble_between[of 0 x a b] assms by simp

lemma toDouble_half_bounds:
  fixes a b :: int
  assumes "\<bar>x\<bar> * 2 < 2 ^ 53" "real_of_int a / 2 \<le> x" "x \<le> real_of_int b / 2"
  shows "real_of_int a / 2 \<le> toDouble x \<and> toDouble x \<le> real_of_int b / 2"
  using toDouble_between[of 1 x a b] assms by simp

lemma noise_offset_bound:
  fixes c :: int
  assumes "0 \<le> r" "r < 1" "0 \<le> A" "A \<le> real_of_int c" "c \<le> 2 ^ 52"
  shows "\<bar>noise_offset r A\<bar> \<le> real_of_int c"
proof -
  have c0: "0 \<le> real_of_int c" using assms(3,4) by linarith
  have "real_of_int c \<le> real_of_int (2 ^ 52)" using assms(5) by (simp only: of_int_le_iff)
  then have cb: "real_of_int c < 2 ^ 53" by simp
  define t1 where "t1 = toDouble (r - 0.5)"
  define t2 where "t2 = toDouble (t1 * A)"
  have s1: "\<bar>r - 0.5\<bar> * 2 < 2 ^ 53" using assms(1,2) by (simp add: abs_if)
  have "real_of_int (- 1) / 2 \<le> r - 0.5" "r - 0.5 \<le> real_of_int 1 / 2"
    using assms(1,2) by simp_all
  from toDouble_half_bounds[OF s1 this]
  have t1: "\<bar>t1\<bar> \<le> 1 / 2" unfolding t1_def by (simp; linarith?)
  have "\<bar>t1 * A\<bar> = \<bar>t1\<bar> * A" using assms(3) by (simp add: abs_mult)
  also have "\<dots> \<le> (1 / 2) * A" using t1 assms(3) by (rule mult_right_mono)
  also have "\<dots> \<le> real_of_int c / 2" using assms(4) by simp
  finally have p1: "\<bar>t1 * A\<bar> \<le> real_of_int c / 2" .
  have s2: "\<bar>t1 * A\<bar> * 2 < 2 ^ 53" using p1 cb by linarith
  have "- real_of_int c / 2 \<le> t1 * A" "t1 * A \<le> real_of_int c / 2"
    using p1 by linarith+
  then have "real_of_int (- c) / 2 \<le> t1 * A" "t1 * A \<le> real_of_int c / 2" by simp_all
  from toDouble_half_bounds[OF s2 this]
  have t2: "\<bar>t2\<bar> \<le> real_of_int c / 2" unfolding t2_def by (simp; linarith?)
  then have p2: "\<bar>t2 * 2\<bar> \<le> real_of_int c" by (simp add: abs_mult)
  have s3: "\<bar>t2 * 2\<bar> < 2 ^ 53" using p2 cb by linarith
  have "- real_of_int c \<le> t2 * 2" "t2 * 2 \<le> real_of_int c"
    using p2 by linarith+
  then have "real_of_int (- c) \<le> t2 * 2" "t2 * 2 \<le> real_of_int c" by simp_all
  from toDouble_int_bounds[OF s3 this]
  show ?thesis
    unfolding noise_offset_def t1_def[symmetric] t2_def[symmetric] by (simp; linarith?)
qed

lemma noise_offset_zero: "noise_offset r 0 = 0"
  by (simp add: noise_offset_def toDouble_zero)

lemma noise_store_zero:
  assumes "0 \<le> v" "v \<le> 255"
  shows "noise_store 0 v = v"
proof -
  have "\<bar>real_of_int v\<bar> < 2 ^ 53" using assms by simp
  then have "toDouble (real_of_int v / 2 ^ 0) = real_of_int v / 2 ^ 0"
    by (intro toDouble_dyadic) simp_all
  then have "max 0 (min 255 (toDouble (real_of_int v + 0))) = real_of_int v" using assms by simp
  then show ?thesis unfolding noise_store_def using assms by (simp only: toUint8Clamp_byte)
qed

lemma noise_store_near:
  assumes "0 \<le> v" "v \<le> 255" "\<bar>noise\<bar> \<le> real_of_int c" "c \<le> 2 ^ 52"
  shows "\<bar>noise_store noise v - v\<bar> \<le> c"
proof -
  have c0: "0 \<le> c" using assms(3) by linarith
  have "real_of_int c \<le> real_of_int (2 ^ 52)" using assms(4) by (simp only: of_int_le_iff)
  then have cb: "real_of_int c \<le> 4503599627370496" by simp
  have v: "0 \<le> real_of_int v" "real_of_int v \<le> 255" using assms(1,2) by simp_all
  have s: "\<bar>real_of_int v + noise\<bar> < 2 ^ 53" using v assms(3) cb by (simp; linarith?)
  have "real_of_int v - real_of_int c \<le> real_of_int v + noise"
    "real_of_int v + noise \<le> real_of_int v + real_of_int c"
    using assms(3) by linarith+
  then have "real_of_int (v - c) \<le> real_of_int v + noise" "real_of_int v + noise \<le> real_of_int (v + c)"
    by simp_all
  from toDouble_int_bounds[OF s this]
  have lo: "real_of_int (max 0 (v - c)) \<le> max 0 (min 255 (toDouble (real_of_int v + noise)))"
    and hi: "max 0 (min 255 (toDouble (real_of_int v + noise))) \<le> real_of_int (min 255 (v + c))"
    using assms(1,2) c0 by (auto simp: max_def min_def)
  have "max 0 (v - c) \<le> noise_store noise v \<and> noise_store noise v \<le> min 255 (v + c)"
    unfolding noise_store_def by (rule toUint8Clamp_between[OF lo hi]) simp_all
  then show ?thesis by (auto simp: max_def min_def split: if_splits)
qed

subsection \<open>The loop\<close>

lemma noise_loop_step:
  assumes "i < length d"
  shows "noise_loop rnd amt d i k =
     noise_loop rnd amt
       (d[i := noise_store (noise_offset (rnd k) amt) (d ! i),
          i + 1 := noise_store (noise_offset (rnd k) amt) (d ! (i + 1)),
          i + 2 := noise_store (noise_offset (rnd k) amt) (d ! (i + 2))]) (i + 4) (k + 1)"
  using assms by (subst noise_loop.simps) (simp add: Let_def noise_store_def noise_offset_def)

lemma noise_loop_length: "length (noise_loop rnd amt d i k) = length d"
proof (induction "length d - i" arbitrary: d i k rule: less_induct)
  case less
  show ?case
  proof (cases "i < length d")
    case True
    let ?d = "d[i := noise_store (noise_offset (rnd k) amt) (d ! i),
          i + 1 := noise_store (noise_offset (rnd k) amt) (d ! (i + 1)),
          i + 2 := noise_store (noise_offset (rnd k) amt) (d ! (i + 2))]"
    have "length (noise_loop rnd amt ?d (i + 4) (k + 1)) = length ?d"
      using True by (intro less) simp
    then show ?thesis unfolding noise_loop_step[OF True] by simp
  next
    case False
    then show ?thesis by (subst noise_loop.simps) simp
  qed
qed

lemma noise_loop_below:
  "j < i \<Longrightarrow> j < length d \<Longrightarrow> noise_loop rnd amt d i k ! j = d ! j"
proof (induction "length d - i" arbitrary: d i k rule: less_induct)
  case less
  show ?case
  proof (cases "i < length d")
    case True
    let ?d = "d[i := noise_store (noise_offset (rnd k) amt) (d ! i),
          i + 1 := noise_store (noise_offset (rnd k) amt) (d ! (i + 1)),
          i + 2 := noise_store (noise_offset (rnd k) amt) (d ! (i + 2))]"
    have "noise_loop rnd amt ?d (i + 4) (k + 1) ! j = ?d ! j"
      using True less.prems by (intro less) simp_all
    moreover have "?d ! j = d ! j" using less.prems by simp
    ultimately show ?thesis unfolding noise_loop_step[OF True] by simp
  next
    case False
    then show ?thesis by (subst noise_loop.simps) simp
  qed
qed

lemma noise_loop_above:
  "i + m < length d \<Longrightarrow>
   noise_loop rnd amt d i k ! (i + m) =
     (if m mod 4 \<noteq> 3
      then noise_store (noise_offset (rnd (k + m div 4)) amt) (d ! (i + m))
      else d ! (i + m))"
proof (induction "length d - i" arbitrary: d i k m rule: less_induct)
  case less
  have True: "i < length d" using less.prems by simp
  let ?n = "noise_offset (rnd k) amt"
  let ?d = "d[i := noise_store ?n (d ! i), i + 1 := noise_store ?n (d ! (i + 1)),
              i + 2 := noise_store ?n (d ! (i + 2))]"
  have len: "length ?d = length d" by simp
  have dj: "?d ! (i + m) = (if m < 3 then noise_store ?n (d ! (i + m)) else d ! (i + m))"
  proof -
    have m3: "m < 3 \<longleftrightarrow> m = 0 \<or> m = 1 \<or> m = 2" by arith
    show ?thesis unfolding upd3_nth[OF less.prems] m3 by auto
  qed
  show ?case
  proof (cases "m < 4")
    case True
    have "noise_loop rnd amt ?d (i + 4) (k + 1) ! (i + m) = ?d ! (i + m)"
      using True less.prems by (intro noise_loop_below) simp_all
    moreover have "m mod 4 = m" "m div 4 = 0" using True by simp_all
    moreover have "m < 3 \<longleftrightarrow> m \<noteq> 3" using True by arith
    ultimately show ?thesis unfolding noise_loop_step[OF \<open>i < length d\<close>] dj by simp
  next
    case False
    then obtain m' where m': "m = m' + 4" by (metis add.commute le_Suc_ex not_less)
    have lt: "(i + 4) + m' < length ?d" using less.prems m' by simp
    have idx: "i + 4 + m' = i + m" using m' by simp
    have mm: "m' mod 4 = m mod 4" using m' by simp
    have kk: "k + 1 + m' div 4 = k + m div 4" using m' by simp
    have dm: "?d ! (i + m) = d ! (i + m)" using False dj by simp
    have "noise_loop rnd amt ?d (i + 4) (k + 1) ! ((i + 4) + m') =
       (if m' mod 4 \<noteq> 3
        then noise_store (noise_offset (rnd (k + 1 + m' div 4)) amt) (?d ! ((i + 4) + m'))
        else ?d ! ((i + 4) + m'))"
      using \<open>i < length d\<close> by (intro less(1)[OF _ lt]) simp
    then show ?thesis unfolding noise_loop_step[OF \<open>i < length d\<close>] idx mm kk dm .
  qed
qed

lemma noise_loop_nth:
  "j < length d \<Longrightarrow>
   noise_loop rnd amt d 0 0 ! j =
     (if j mod 4 \<noteq> 3 then noise_store (noise_offset (rnd (j div 4)) amt) (d ! j) else d ! j)"
  using noise_loop_above[of 0 j d rnd amt 0] by simp

lemma noise_data:
  assumes "j < length (data img)"
  shows "data (applyNoiseEffect bw ctx img params) ! j =
     (if j mod 4 \<noteq> 3
      then noise_store (noise_offset (random bw (j div 4)) (amount params)) (data img ! j)
      else data img ! j)"
  using assms
  by (simp add: applyNoiseEffect_def drawImage_def putImageData_def Let_def noise_loop_nth)

lemma noise_shape:
  "width (applyNoiseEffect bw ctx img params) = width img \<and>
   height (applyNoiseEffect bw ctx img params) = height img \<and>
   length (data (applyNoiseEffect bw ctx img params)) = length (data img)"
  by (simp add: applyNoiseEffect_def drawImage_def putImageData_def Let_def noise_loop_length)

subsection \<open>The bound\<close>

lemma noise_offset_default: "noise_offset (7 / 8) 25 = 75 / 4"
proof -
  have 1: "toDouble (7 / 8 - 0.5) = 3 / 8" using toDouble_dyadic[of 3 3] by simp
  have 2: "toDouble (3 / 8 * 25) = 75 / 8" using toDouble_dyadic[of 3 75] by simp
  have 3: "toDouble (75 / 8 * 2) = 75 / 4" using toDouble_dyadic[of 2 75] by simp
  show ?thesis unfolding noise_offset_def 1 2 3 ..
qed

lemma noise_store_default: "noise_store (75 / 4) 10 = 29"
proof -
  have s: "real_of_int 10 + 75 / 4 = (115 / 4 :: real)" by simp
  have td: "toDouble (115 / 4) = 115 / 4" using toDouble_dyadic[of 2 115] by simp
  show ?thesis unfolding noise_store_def s td by (simp add: toUint8Clamp_def)
qed

lemma noise_offset_example: "noise_offset (7 / 8) (3 / 4) = 9 / 16"
proof -
  have 1: "toDouble (7 / 8 - 0.5) = 3 / 8" using toDouble_dyadic[of 3 3] by simp
  have 2: "toDouble (3 / 8 * (3 / 4)) = 9 / 32" using toDouble_dyadic[of 5 9] by simp
  have 3: "toDouble (9 / 32 * 2) = 9 / 16" using toDouble_dyadic[of 4 9] by simp
  show ?thesis unfolding noise_offset_def 1 2 3 ..
qed

lemma noise_store_example: "noise_store (9 / 16) 10 = 11"
proof -
  have s: "real_of_int 10 + 9 / 16 = (169 / 16 :: real)" by simp
  have td: "toDouble (169 / 16) = 169 / 16" using toDouble_dyadic[of 4 169] by simp
  show ?thesis unfolding noise_store_def s td by (simp add: toUint8Clamp_def)
qed

text \<open>
  Claim C6, amended.  For a buffer of bytes, draws in \<open>[0, 1)\<close> and an amount
  \<open>0 \<le> A \<le> 2 ^ 52\<close>: alpha bytes are kept; the R, G and B bytes of pixel \<open>p\<close> each
  receive the same offset, the double \<open>noise_offset (random p) A\<close> computed as
  \<^verbatim>\<open>(Math.random() - 0.5) * params.amount * 2\<close> with every operation rounded; the
  sum of byte and offset is rounded to a double, clamped to \<open>[0, 255]\<close> and stored
  (a store rounds to the nearest integer, halves to even); every stored byte
  differs from the input byte by at most \<open>\<lceil>A\<rceil>\<close>, which is \<open>A\<close> for the integral
  amounts the slider emits; with \<open>A = 0\<close> the buffer is returned unchanged.
\<close>

theorem noise_within_amount:
  assumes "valid_image img" and "\<forall>k. 0 \<le> random bw k \<and> random bw k < 1"
    and "0 \<le> amount params" and "amount params \<le> 2 ^ 52"
  shows "(let out = data (applyNoiseEffect bw ctx img params)
          in length out = length (data img)
             \<and> (\<forall>j<length (data img).
                   (j mod 4 = 3 \<longrightarrow> out ! j = data img ! j)
                 \<and> (j mod 4 \<noteq> 3 \<longrightarrow>
                      out ! j = noise_store (noise_offset (random bw (j div 4)) (amount params))
                                  (data img ! j)
                    \<and> \<bar>out ! j - data img ! j\<bar> \<le> \<lceil>amount params\<rceil>))
             \<and> (amount params = 0 \<longrightarrow> applyNoiseEffect bw ctx img params = img))"
proof -
  have bytes: "\<And>j. j < length (data img) \<Longrightarrow> 0 \<le> data img ! j \<and> data img ! j \<le> 255"
    using assms(1) by (simp add: valid_image_def)
  have "amount params \<le> real_of_int (2 ^ 52)" using assms(4) by simp
  then have cb: "\<lceil>amount params\<rceil> \<le> 2 ^ 52" by (simp only: ceiling_le_iff)
  have near: "\<bar>data (applyNoiseEffect bw ctx img params) ! j - data img ! j\<bar> \<le> \<lceil>amount params\<rceil>"
    if "j < length (data img)" "j mod 4 \<noteq> 3" for j
  proof -
    have "\<bar>noise_offset (random bw (j div 4)) (amount params)\<bar> \<le> real_of_int \<lceil>amount params\<rceil>"
      using assms(2,3) cb by (intro noise_offset_bound) (auto simp: le_of_int_ceiling)
    then show ?thesis
      using bytes[OF that(1)] that cb by (simp add: noise_data noise_store_near)
  qed
  have ident: "applyNoiseEffect bw ctx img params = img" if z: "amount params = 0"
  proof -
    have "data (applyNoiseEffect bw ctx img params) = data img"
    proof (rule nth_equalityI)
      show "length (data (applyNoiseEffect bw ctx img params)) = length (data img)"
        by (simp add: noise_shape)
    next
      fix j assume "j < length (data (applyNoiseEffect bw ctx img params))"
      then have j: "j < length (data img)" by (simp add: noise_shape)
      show "data (applyNoiseEffect bw ctx img params) ! j = data img ! j"
        using bytes[OF j] by (simp add: noise_data[OF j] z noise_offset_zero noise_store_zero)
    qed
    moreover have "applyNoiseEffect bw ctx img params = img\<lparr>data := data (applyNoiseEffect bw ctx img params)\<rparr>"
      by (simp add: applyNoiseEffect_def drawImage_def putImageData_def Let_def)
    ultimately show ?thesis by simp
  qed
  show ?thesis
    unfolding Let_def using near ident noise_shape[of bw ctx img params]
    by (simp add: noise_data)
qed

theorem noise_within_amount_witness:
  "data (applyNoiseEffect plainBrowser (createImageData 1 1) darkPixel initialParams) ! 0 = 29
   \<and> \<bar>data (applyNoiseEffect plainBrowser (createImageData 1 1) darkPixel initialParams) ! 0 - 10\<bar> \<le> 25
   \<and> data (applyNoiseEffect plainBrowser (createImageData 1 1) darkPixel initialParams) ! 3 = 255
   \<and> applyNoiseEffect plainBrowser (createImageData 1 1) darkPixel (initialParams\<lparr>amount := 0\<rparr>) = darkPixel"
proof -
  let ?out = "data (applyNoiseEffect plainBrowser (createImageData 1 1) darkPixel initialParams)"
  have v: "valid_image darkPixel" by (simp add: valid_image_def darkPixel_def)
  have r: "\<forall>k. 0 \<le> random plainBrowser k \<and> random plainBrowser k < 1"
    by (simp add: plainBrowser_def)
  have a: "0 \<le> amount initialParams" "0 \<le> amount (initialParams\<lparr>amount := 0\<rparr>)"
    by (simp_all add: initialParams_def)
  have b: "amount initialParams \<le> 2 ^ 52" "amount (initialParams\<lparr>amount := 0\<rparr>) \<le> 2 ^ 52"
    by (simp_all add: initialParams_def)
  have am: "\<lceil>amount initialParams\<rceil> = 25" by (simp add: initialParams_def)
  have d: "data darkPixel ! 0 = 10" "data darkPixel ! 3 = 255"
    "(0::nat) < length (data darkPixel)" "(3::nat) < length (data darkPixel)"
    by (simp_all add: darkPixel_def)
  have "\<forall>j<length (data darkPixel).
          (j mod 4 = 3 \<longrightarrow> ?out ! j = data darkPixel ! j)
        \<and> (j mod 4 \<noteq> 3 \<longrightarrow>
             ?out ! j = noise_store (noise_offset (random plainBrowser (j div 4)) (amount initialParams))
                          (data darkPixel ! j)
           \<and> \<bar>?out ! j - data darkPixel ! j\<bar> \<le> \<lceil>amount initialParams\<rceil>)"
    using noise_within_amount[OF v r a(1) b(1), of "createImageData 1 1"] unfolding Let_def by blast
  note inst = this[rule_format, OF d(3), unfolded d am] this[rule_format, OF d(4), unfolded d am]
  have m: "(0::nat) mod 4 \<noteq> 3" "(3::nat) mod 4 = 3" by simp_all
  have "\<bar>?out ! 0 - 10\<bar> \<le> 25" using inst(1) m(1) by blast
  moreover have "?out ! 0 = noise_store (noise_offset (random plainBrowser (0 div 4)) (amount initialParams)) 10"
    using inst(1) m(1) by blast
  then have "?out ! 0 = 29"
    by (simp add: plainBrowser_def initialParams_def noise_offset_default noise_store_default)
  moreover have "?out ! 3 = 255" using inst(2) m(2) by blast
  moreover have "applyNoiseEffect plainBrowser (createImageData 1 1) darkPixel (initialParams\<lparr>amount := 0\<rparr>) = darkPixel"
    using noise_within_amount[OF v r a(2) b(2), of "createImageData 1 1"] unfolding Let_def by simp
  ultimately show ?thesis by simp
qed

text \<open>
  The bound \<open>A\<close> itself fails for a fractional amount: with \<open>A = 3/4\<close> and the draw
  \<open>7/8\<close> the offset is \<open>9/16\<close> (no rounding occurs), and the byte 10 becomes 11.
\<close>

theorem noise_fractional_amount_counterexample:
  "\<not> real_of_int \<bar>data (applyNoiseEffect plainBrowser (createImageData 1 1) darkPixel
                         (initialParams\<lparr>amount := 3 / 4\<rparr>)) ! 0 - data darkPixel ! 0\<bar>
       \<le> amount (initialParams\<lparr>amount := 3 / 4\<rparr>)"
proof -
  have "data (applyNoiseEffect plainBrowser (createImageData 1 1) darkPixel
               (initialParams\<lparr>amount := 3 / 4\<rparr>)) ! 0 = 11"
    by (simp add: noise_data darkPixel_def plainBrowser_def noise_offset_example noise_store_example)
  then show ?thesis by (simp add: darkPixel_def)
qed

subsection \<open>A tie at the store\<close>

lemma toDouble_8_16:
  assumes "8 \<le> x" "x < 16"
  shows "toDouble x = real_of_int (roundTiesToEven (x * 2 ^ 49)) / 2 ^ 49"
proof -
  have x0: "0 < x" "x \<noteq> 0" "\<bar>x\<bar> = x" using assms(1) by simp_all
  have "(2::real) powr 3 \<le> x" using assms(1) by simp
  then have l1: "real_of_int 3 \<le> log 2 x" using x0 by (simp add: le_log_iff)
  have "x < (2::real) powr 4" using assms(2) by simp
  then have l2: "log 2 x < real_of_int 3 + 1" using x0 by (simp add: log_less_iff)
  have e: "\<lfloor>log 2 x\<rfloor> = 3" using l1 l2 by (rule floor_unique)
  have u: "(2::real) powr (real_of_int (max 3 (- 1022)) - 52) = 1 / 2 ^ 49"
  proof -
    have "real_of_int (max 3 (- 1022)) - 52 = - real (49::nat)" by simp
    then show ?thesis by (simp only: powr_minus powr_realpow zero_less_numeral inverse_eq_divide)
  qed
  show ?thesis
    unfolding toDouble_def Let_def x0(3) e u using x0(2) by simp
qed

lemma roundTiesToEven_low:
  assumes "0 \<le> q" "q < 1 / 2"
  shows "roundTiesToEven (real_of_int n + q) = n"
proof -
  have "\<lfloor>real_of_int n + q\<rfloor> = n" using assms by (intro floor_unique) simp_all
  then show ?thesis using assms by (simp add: roundTiesToEven_def)
qed

lemma tie_offset: "noise_offset tieDraw 1 = 1 / 2 + 1 / 2 ^ 51"
proof -
  have a: "(3 / 4 + 1 / 2 ^ 52 - 0.5 :: real) = real_of_int (2 ^ 50 + 1) / 2 ^ 52" by simp
  have 1: "toDouble (real_of_int (2 ^ 50 + 1) / 2 ^ 52) = real_of_int (2 ^ 50 + 1) / 2 ^ 52"
    by (rule toDouble_dyadic) simp_all
  have b: "real_of_int (2 ^ 50 + 1) / 2 ^ 52 * (1::real) = real_of_int (2 ^ 50 + 1) / 2 ^ 52" by simp
  have c: "real_of_int (2 ^ 50 + 1) / 2 ^ 52 * (2::real) = real_of_int (2 ^ 50 + 1) / 2 ^ 51" by simp
  have 2: "toDouble (real_of_int (2 ^ 50 + 1) / 2 ^ 51) = real_of_int (2 ^ 50 + 1) / 2 ^ 51"
    by (rule toDouble_dyadic) simp_all
  show ?thesis unfolding noise_offset_def tieDraw_def a 1 b c 2 by simp
qed

lemma tie_store:
  assumes "v = 10 \<or> v = 11 \<or> v = 12"
  shows "toDouble (real_of_int v + (1 / 2 + 1 / 2 ^ 51)) = real_of_int v + 1 / 2"
proof -
  let ?x = "real_of_int v + (1 / 2 + 1 / 2 ^ 51)"
  have r: "8 \<le> ?x" "?x < 16" using assms by auto
  have "?x * 2 ^ 49 = real_of_int ((2 * v + 1) * 2 ^ 48) + 1 / 4" by (simp add: algebra_simps)
  then have "roundTiesToEven (?x * 2 ^ 49) = (2 * v + 1) * 2 ^ 48"
    by (simp only: roundTiesToEven_low[of "1 / 4", simplified])
  then show ?thesis unfolding toDouble_8_16[OF r] by simp
qed

text \<open>
  The rounding of the sum is visible in the stored bytes.  With amount 1 and the
  draw \<open>3/4 + 2 ^ (- 52)\<close> the offset is \<open>1/2 + 2 ^ (- 51)\<close>; added to 10, 11 and 12
  it gives sums that are not doubles and round to \<open>10.5\<close>, \<open>11.5\<close> and \<open>12.5\<close>, which
  the store takes to the even neighbours 10, 12 and 12.  Without the rounding
  the bytes would be 11, 12 and 13.
\<close>

lemma noise_rounding_example:
  "data (applyNoiseEffect tieBrowser (createImageData 1 1) tiePixel (initialParams\<lparr>amount := 1\<rparr>))
     = [10, 12, 12, 255]"
proof -
  let ?out = "data (applyNoiseEffect tieBrowser (createImageData 1 1) tiePixel (initialParams\<lparr>amount := 1\<rparr>))"
  have s: "noise_store (noise_offset tieDraw 1) 10 = 10" "noise_store (noise_offset tieDraw 1) 11 = 12"
    "noise_store (noise_offset tieDraw 1) 12 = 12"
    unfolding tie_offset
  proof -
    have t: "toDouble (real_of_int 10 + (1 / 2 + 1 / 2 ^ 51)) = 21 / 2"
      "toDouble (real_of_int 11 + (1 / 2 + 1 / 2 ^ 51)) = 23 / 2"
      "toDouble (real_of_int 12 + (1 / 2 + 1 / 2 ^ 51)) = 25 / 2"
      using tie_store[of 10] tie_store[of 11] tie_store[of 12] by simp_all
    show "noise_store (1 / 2 + 1 / 2 ^ 51) 10 = 10" "noise_store (1 / 2 + 1 / 2 ^ 51) 11 = 12"
      "noise_store (1 / 2 + 1 / 2 ^ 51) 12 = 12"
      unfolding noise_store_def t by (simp_all add: toUint8Clamp_def)
  qed
  have r: "random tieBrowser k = tieDraw" for k by (simp add: tieBrowser_def)
  have len: "length ?out = 4" by (simp add: noise_shape tiePixel_def)
  have "?out ! j = [10, 12, 12, 255] ! j" if "j < 4" for j
  proof -
    from that consider "j = 0" | "j = 1" | "j = 2" | "j = 3" by linarith
    then show ?thesis
      by cases (simp_all add: noise_data tiePixel_def r s)
  qed
  then show ?thesis using len by (intro nth_equalityI) simp_all
qed

section \<open>Raster scans\<close>

lemma length_setPixel: "length (setPixel d i px) = length d"
  by (cases px) (simp add: setPixel_def)

lemma div4_cases:
  "(j::nat) div 4 = p \<longleftrightarrow> j = p * 4 \<or> j = p * 4 + 1 \<or> j = p * 4 + 2 \<or> j = p * 4 + 3"
  by presburger

lemma setPixel_at:
  assumes "c < 4" "p * 4 + c < length d"
  shows "setPixel d (p * 4) px ! (p * 4 + c) = toUint8Clamp (real_of_int (chan px c))"
proof (cases px)
  case (fields r g b a)
  from assms(1) consider "c = 0" | "c = 1" | "c = 2" | "c = 3" by linarith
  then show ?thesis
    using assms(2) by cases (simp_all add: fields setPixel_def chan_def)
qed

lemma setPixel_nth:
  assumes "j < length d"
  shows "setPixel d (p * 4) px ! j =
     (if j div 4 = p then toUint8Clamp (real_of_int (chan px (j mod 4))) else d ! j)"
proof (cases "j div 4 = p")
  case True
  have j: "j = p * 4 + j mod 4" using True by presburger
  have "setPixel d (p * 4) px ! (p * 4 + j mod 4) = toUint8Clamp (real_of_int (chan px (j mod 4)))"
    using assms j by (intro setPixel_at) simp_all
  then show ?thesis using True j by simp
next
  case False
  then have "j \<noteq> p * 4" "j \<noteq> p * 4 + 1" "j \<noteq> p * 4 + 2" "j \<noteq> p * 4 + 3"
    using div4_cases by blast+
  then show ?thesis using False by (cases px) (simp add: setPixel_def)
qed

lemma pixel_coords:
  assumes "x < (w::nat)"
  shows "q = y * w + x \<longleftrightarrow> q div w = y \<and> q mod w = x"
proof -
  have w0: "w \<noteq> 0" using assms by auto
  have "(y * w + x) div w = y" "(y * w + x) mod w = x" using assms w0 by simp_all
  moreover have "q div w * w + q mod w = q" by simp
  ultimately show ?thesis by metis
qed

lemma raster_row_nth:
  assumes "\<forall>x \<in> set xs. x < w" "j < length out"
  shows "fold (\<lambda>x d. case f x y of None \<Rightarrow> d | Some px \<Rightarrow> setPixel d ((y * w + x) * 4) px) xs out ! j =
     (if (j div 4) div w = y \<and> (j div 4) mod w \<in> set xs \<and> f ((j div 4) mod w) y \<noteq> None
      then toUint8Clamp (real_of_int (chan (the (f ((j div 4) mod w) y)) (j mod 4)))
      else out ! j)"
  using assms
proof (induction xs arbitrary: out)
  case Nil
  then show ?case by simp
next
  case (Cons x xs)
  let ?step = "\<lambda>x d. case f x y of None \<Rightarrow> d | Some px \<Rightarrow> setPixel d ((y * w + x) * 4) px"
  have xw: "x < w" using Cons.prems(1) by simp
  have len: "j < length (?step x out)"
    using Cons.prems(2) by (simp add: length_setPixel split: option.split)
  have here: "?step x out ! j =
     (if (j div 4) div w = y \<and> (j div 4) mod w = x \<and> f x y \<noteq> None
      then toUint8Clamp (real_of_int (chan (the (f x y)) (j mod 4))) else out ! j)"
  proof (cases "f x y")
    case None
    then show ?thesis by simp
  next
    case (Some px)
    have "setPixel out ((y * w + x) * 4) px ! j =
       (if j div 4 = y * w + x then toUint8Clamp (real_of_int (chan px (j mod 4))) else out ! j)"
      by (rule setPixel_nth[OF Cons.prems(2)])
    then show ?thesis
      unfolding pixel_coords[OF xw, of "j div 4" y] by (simp only: Some option.case option.sel) auto
  qed
  have "fold ?step (x # xs) out ! j = fold ?step xs (?step x out) ! j" by simp
  also have "\<dots> =
     (if (j div 4) div w = y \<and> (j div 4) mod w \<in> set xs \<and> f ((j div 4) mod w) y \<noteq> None
      then toUint8Clamp (real_of_int (chan (the (f ((j div 4) mod w) y)) (j mod 4)))
      else ?step x out ! j)"
    using Cons.prems(1) by (intro Cons.IH[OF _ len]) simp
  finally show ?case unfolding here by auto
qed

lemma raster_row_length:
  "length (fold (\<lambda>x d. case f x y of None \<Rightarrow> d | Some px \<Rightarrow> setPixel d ((y * w + x) * 4) px) xs out)
     = length out"
proof (induction xs arbitrary: out)
  case Nil
  show ?case by simp
next
  case (Cons x xs)
  have "length (case f x y of None \<Rightarrow> out | Some px \<Rightarrow> setPixel out ((y * w + x) * 4) px) = length out"
    by (cases "f x y") (simp_all add: length_setPixel)
  then show ?case by (simp add: Cons.IH)
qed

lemma raster_Cons:
  "raster w f (y # ys) xs out =
     raster w f ys xs
       (fold (\<lambda>x d. case f x y of None \<Rightarrow> d | Some px \<Rightarrow> setPixel d ((y * w + x) * 4) px) xs out)"
  by (simp add: raster_def)

lemma raster_Nil: "raster w f [] xs out = out"
  by (simp add: raster_def)

lemma raster_length: "length (raster w f ys xs out) = length out"
proof (induction ys arbitrary: out)
  case Nil
  show ?case by (simp add: raster_Nil)
next
  case (Cons y ys)
  show ?case unfolding raster_Cons Cons.IH by (rule raster_row_length)
qed

lemma raster_nth:
  assumes "\<forall>x \<in> set xs. x < w" "j < length out"
  shows "raster w f ys xs out ! j =
     (if (j div 4) div w \<in> set ys \<and> (j div 4) mod w \<in> set xs
         \<and> f ((j div 4) mod w) ((j div 4) div w) \<noteq> None
      then toUint8Clamp (real_of_int (chan (the (f ((j div 4) mod w) ((j div 4) div w))) (j mod 4)))
      else out ! j)"
  using assms(2)
proof (induction ys arbitrary: out)
  case Nil
  then show ?case by (simp add: raster_Nil)
next
  case (Cons y ys)
  let ?row = "fold (\<lambda>x d. case f x y of None \<Rightarrow> d | Some px \<Rightarrow> setPixel d ((y * w + x) * 4) px) xs out"
  define V where "V = toUint8Clamp (real_of_int (chan (the (f ((j div 4) mod w) ((j div 4) div w))) (j mod 4)))"
  define A where "A \<longleftrightarrow> (j div 4) mod w \<in> set xs \<and> f ((j div 4) mod w) ((j div 4) div w) \<noteq> None"
  have len: "j < length ?row" using Cons.prems by (simp add: raster_row_length)
  have IH: "raster w f ys xs ?row ! j = (if (j div 4) div w \<in> set ys \<and> A then V else ?row ! j)"
    unfolding A_def V_def by (rule Cons.IH[OF len])
  have row: "?row ! j = (if (j div 4) div w = y \<and> A then V else out ! j)"
    unfolding A_def V_def raster_row_nth[OF assms(1) Cons.prems] by auto
  have "raster w f (y # ys) xs out ! j = (if (j div 4) div w \<in> set (y # ys) \<and> A then V else out ! j)"
    unfolding raster_Cons IH row by auto
  then show ?case unfolding A_def V_def by simp
qed

section \<open>Emboss: the border ring\<close>

lemma byte_index:
  assumes "x < (w::nat)" "y < (h::nat)" "c < (4::nat)"
  shows "((y * w + x) * 4 + c) div 4 = y * w + x"
    and "((y * w + x) * 4 + c) mod 4 = c"
    and "(((y * w + x) * 4 + c) div 4) div w = y"
    and "(((y * w + x) * 4 + c) div 4) mod w = x"
    and "(y * w + x) * 4 + c < w * h * 4"
proof -
  show d: "((y * w + x) * 4 + c) div 4 = y * w + x" using assms(3) by presburger
  show "((y * w + x) * 4 + c) mod 4 = c" using assms(3) by presburger
  have w0: "w \<noteq> 0" using assms(1) by auto
  show "(((y * w + x) * 4 + c) div 4) div w = y" unfolding d using assms(1) w0 by simp
  show "(((y * w + x) * 4 + c) div 4) mod w = x" unfolding d using assms(1) by simp
  have "y * w + x < (y + 1) * w" using assms(1) by simp
  also have "\<dots> \<le> h * w" using assms(2) by (intro mult_le_mono1) simp
  finally have "y * w + x < w * h" by (simp add: mult.commute)
  moreover have "\<And>q n::nat. q < n \<Longrightarrow> q * 4 + c < n * 4" using assms(3) by arith
  ultimately show "(y * w + x) * 4 + c < w * h * 4" by blast
qed

lemma emboss_convolve_raster:
  "emboss_convolve originalData s out =
     raster (width originalData) (\<lambda>x y. Some (emboss_pixel originalData s x y))
       [1 ..< height originalData - 1] [1 ..< width originalData - 1] out"
  by (simp add: emboss_convolve_def raster_def)

lemma emboss_edges_raster:
  "emboss_edges originalData out =
     raster (width originalData)
       (\<lambda>x y. if x = 0 \<or> int x = int (width originalData) - 1 \<or> y = 0 \<or> int y = int (height originalData) - 1
              then Some (data originalData ! ((y * width originalData + x) * 4),
                         data originalData ! ((y * width originalData + x) * 4 + 1),
                         data originalData ! ((y * width originalData + x) * 4 + 2),
                         data originalData ! ((y * width originalData + x) * 4 + 3))
              else None)
       [0 ..< height originalData] [0 ..< width originalData] out"
proof -
  have "\<And>x y (d::int list). (if x = 0 \<or> int x = int (width originalData) - 1 \<or> y = 0 \<or> int y = int (height originalData) - 1
              then setPixel d ((y * width originalData + x) * 4)
                         (data originalData ! ((y * width originalData + x) * 4),
                         data originalData ! ((y * width originalData + x) * 4 + 1),
                         data originalData ! ((y * width originalData + x) * 4 + 2),
                         data originalData ! ((y * width originalData + x) * 4 + 3))
              else d) =
        (case (if x = 0 \<or> int x = int (width originalData) - 1 \<or> y = 0 \<or> int y = int (height originalData) - 1
              then Some (data originalData ! ((y * width originalData + x) * 4),
                         data originalData ! ((y * width originalData + x) * 4 + 1),
                         data originalData ! ((y * width originalData + x) * 4 + 2),
                         data originalData ! ((y * width originalData + x) * 4 + 3))
              else None) of None \<Rightarrow> d | Some px \<Rightarrow> setPixel d ((y * width originalData + x) * 4) px)"
    by simp
  then show ?thesis
    unfolding emboss_edges_def raster_def Let_def by (simp only:)
qed

lemma chan_quad:
  assumes "c < 4"
  shows "chan (d ! i, d ! (i + 1), d ! (i + 2), d ! (i + 3)) c = d ! (i + c)"
proof -
  from assms consider "c = 0" | "c = 1" | "c = 2" | "c = 3" by linarith
  then show ?thesis by cases (simp_all add: chan_def)
qed

lemma emboss_shape:
  "width (applyEmbossEffect ctx img params) = width img \<and>
   height (applyEmbossEffect ctx img params) = height img \<and>
   length (data (applyEmbossEffect ctx img params)) = width img * height img * 4"
  by (simp add: applyEmbossEffect_def drawImage_def putImageData_def createImageData_def Let_def
        emboss_edges_raster emboss_convolve_raster raster_length)

lemma emboss_convolve_border:
  assumes "x < width img" "y < height img" "c < 4"
    and "x = 0 \<or> x + 1 = width img \<or> y = 0 \<or> y + 1 = height img"
    and "length out = width img * height img * 4"
  shows "emboss_convolve img s out ! ((y * width img + x) * 4 + c) = out ! ((y * width img + x) * 4 + c)"
proof -
  note ix = byte_index[OF assms(1,2,3)]
  have j: "(y * width img + x) * 4 + c < length out" using ix(5) assms(5) by simp
  have xs: "\<forall>x \<in> set [1 ..< width img - 1]. x < width img" by auto
  have out: "(y \<in> set [1 ..< height img - 1] \<and> x \<in> set [1 ..< width img - 1]
       \<and> Some (emboss_pixel img s x y) \<noteq> None) = False"
    using assms(4) by auto
  show ?thesis
    unfolding emboss_convolve_raster raster_nth[OF xs j] ix(3,4) out if_False ..
qed

lemma emboss_edges_border:
  assumes "x < width img" "y < height img" "c < 4"
    and "x = 0 \<or> x + 1 = width img \<or> y = 0 \<or> y + 1 = height img"
    and "length out = width img * height img * 4"
    and "valid_image img"
  shows "emboss_edges img out ! ((y * width img + x) * 4 + c) = data img ! ((y * width img + x) * 4 + c)"
proof -
  note ix = byte_index[OF assms(1,2,3)]
  have j: "(y * width img + x) * 4 + c < length out" using ix(5) assms(5) by simp
  have xs: "\<forall>x \<in> set [0 ..< width img]. x < width img" by auto
  have border: "x = 0 \<or> int x = int (width img) - 1 \<or> y = 0 \<or> int y = int (height img) - 1"
    using assms(4) by auto
  have mem: "y \<in> set [0 ..< height img]" "x \<in> set [0 ..< width img]" using assms(1,2) by auto
  have "data img ! ((y * width img + x) * 4 + c) \<in> set (data img)"
    using ix(5) assms(6) by (intro nth_mem) (simp add: valid_image_def)
  then have byte: "0 \<le> data img ! ((y * width img + x) * 4 + c)" "data img ! ((y * width img + x) * 4 + c) \<le> 255"
    using assms(6) by (auto simp: valid_image_def)
  let ?i = "(y * width img + x) * 4"
  let ?quad = "(data img ! ?i, data img ! (?i + 1), data img ! (?i + 2), data img ! (?i + 3))"
  let ?f = "\<lambda>x y. if x = 0 \<or> int x = int (width img) - 1 \<or> y = 0 \<or> int y = int (height img) - 1
              then Some (data img ! ((y * width img + x) * 4),
                         data img ! ((y * width img + x) * 4 + 1),
                         data img ! ((y * width img + x) * 4 + 2),
                         data img ! ((y * width img + x) * 4 + 3))
              else None"
  have f: "?f x y = Some ?quad" using border by (simp only: if_True)
  have cond: "(y \<in> set [0 ..< height img] \<and> x \<in> set [0 ..< width img] \<and> ?f x y \<noteq> None) = True"
    using mem f by simp
  have "emboss_edges img out ! (?i + c) =
      toUint8Clamp (real_of_int (chan (the (?f x y)) c))"
    unfolding emboss_edges_raster raster_nth[OF xs j] ix(2,3,4) cond if_True ..
  also have "\<dots> = toUint8Clamp (real_of_int (data img ! (?i + c)))"
    unfolding f option.sel chan_quad[OF assms(3)] ..
  also have "\<dots> = data img ! (?i + c)" using byte by (rule toUint8Clamp_byte)
  finally show ?thesis .
qed

text \<open>
  Claim C7.  For every buffer of bytes and every strength, the output has the
  input's dimensions, every byte (R, G, B and alpha) of every pixel on the
  outermost ring equals the input byte, and the convolution pass itself writes
  nothing there: it leaves the ring of the fresh output buffer at 0, and the
  edge pass then copies the source.
\<close>

theorem emboss_border_unchanged:
  assumes "valid_image img"
  shows "(let out = applyEmbossEffect ctx img params; w = width img; h = height img
          in width out = w \<and> height out = h \<and> length (data out) = length (data img)
             \<and> (\<forall>x<w. \<forall>y<h. x = 0 \<or> x + 1 = w \<or> y = 0 \<or> y + 1 = h \<longrightarrow>
                   (\<forall>c<4. data out ! ((y * w + x) * 4 + c) = data img ! ((y * w + x) * 4 + c)
                        \<and> emboss_convolve img (strength params) (data (createImageData w h))
                              ! ((y * w + x) * 4 + c) = 0)))"
proof -
  let ?blank = "data (createImageData (width img) (height img))"
  have lb: "length ?blank = width img * height img * 4" by (simp add: createImageData_def)
  have lc: "length (emboss_convolve img (strength params) ?blank) = width img * height img * 4"
    by (simp add: emboss_convolve_raster raster_length lb)
  have li: "length (data img) = width img * height img * 4"
    using assms by (simp add: valid_image_def)
  have out: "data (applyEmbossEffect ctx img params) =
      emboss_edges img (emboss_convolve img (strength params) ?blank)"
    by (simp add: applyEmbossEffect_def drawImage_def putImageData_def Let_def)
  have main: "data (applyEmbossEffect ctx img params) ! ((y * width img + x) * 4 + c)
                 = data img ! ((y * width img + x) * 4 + c)
              \<and> emboss_convolve img (strength params) ?blank ! ((y * width img + x) * 4 + c) = 0"
    if "x < width img" "y < height img" "c < 4"
       "x = 0 \<or> x + 1 = width img \<or> y = 0 \<or> y + 1 = height img" for x y c
  proof -
    have "?blank ! ((y * width img + x) * 4 + c) = 0"
      using byte_index(5)[OF that(1,2,3)] by (simp add: createImageData_def)
    then show ?thesis
      unfolding out
      using emboss_edges_border[OF that lc assms] emboss_convolve_border[OF that lb] by simp
  qed
  show ?thesis
    unfolding Let_def using emboss_shape[of ctx img params] li main by auto
qed

theorem emboss_border_unchanged_witness:
  "data (applyEmbossEffect (createImageData 3 3) borderImage initialParams) ! 4 = 129
   \<and> data (applyEmbossEffect (createImageData 3 3) borderImage initialParams) ! 35 = 147"
proof -
  let ?out = "applyEmbossEffect (createImageData 3 3) borderImage initialParams"
  have v: "valid_image borderImage" by (simp add: valid_image_def borderImage_def)
  have wh: "width borderImage = 3" "height borderImage = 3" by (simp_all add: borderImage_def)
  have all: "\<forall>x<(3::nat). \<forall>y<(3::nat). x = 0 \<or> x + 1 = 3 \<or> y = 0 \<or> y + 1 = 3 \<longrightarrow>
           (\<forall>c<4. data ?out ! ((y * 3 + x) * 4 + c) = data borderImage ! ((y * 3 + x) * 4 + c)
                \<and> emboss_convolve borderImage (strength initialParams) (data (createImageData 3 3))
                      ! ((y * 3 + x) * 4 + c) = 0)"
    using emboss_border_unchanged[OF v, of "createImageData 3 3" initialParams]
    unfolding Let_def wh by blast
  have "data ?out ! ((0 * 3 + 1) * 4 + 0) = data borderImage ! ((0 * 3 + 1) * 4 + 0)"
    using all[rule_format, of 1 0 0] by simp
  moreover have "data ?out ! ((2 * 3 + 2) * 4 + 3) = data borderImage ! ((2 * 3 + 2) * 4 + 3)"
    using all[rule_format, of 2 2 3] by simp
  ultimately show ?thesis by (simp add: borderImage_def)
qed

section \<open>Glass refraction: sampling position, alpha and the identity case\<close>































section \<open>Halftone on a white image\<close>

lemma halftone_dotSize_white:
  "\<not> colorMode params \<Longrightarrow> halftone_dotSize params 255 255 255 = 0"
  by (simp add: halftone_dotSize_def Let_def)

lemma sample_in_range:
  assumes "0 < w"
  shows "nat \<lfloor>max 0 (min x (real w - 1))\<rfloor> < w"
proof -
  have "max 0 (min x (real w - 1)) \<le> real w - 1" using assms by auto
  then have "max 0 (min x (real w - 1)) < real_of_int (int w)" by simp
  then have "\<lfloor>max 0 (min x (real w - 1))\<rfloor> < int w" by (simp only: floor_less_iff)
  then show ?thesis using assms by linarith
qed

lemma halftone_dot_white:
  assumes "white_image img" "\<not> colorMode params" "0 < width img" "0 < height img"
  shows "halftone_dot bw img params x y ctx = ctx"
proof -
  let ?sx = "nat \<lfloor>max 0 (min x (real (width img) - 1))\<rfloor>"
  let ?sy = "nat \<lfloor>max 0 (min y (real (height img) - 1))\<rfloor>"
  have sx: "?sx < width img" by (rule sample_in_range[OF assms(3)])
  have sy: "?sy < height img" by (rule sample_in_range[OF assms(4)])
  have "?sy * width img + ?sx < (?sy + 1) * width img" using sx by simp
  also have "\<dots> \<le> height img * width img" using sy by (intro mult_le_mono1) simp
  finally have p: "?sy * width img + ?sx < width img * height img" by (simp add: mult.commute)
  have px: "data img ! ((?sy * width img + ?sx) * 4) = 255"
    "data img ! ((?sy * width img + ?sx) * 4 + 1) = 255"
    "data img ! ((?sy * width img + ?sx) * 4 + 2) = 255"
    using assms(1) p unfolding white_image_def by blast+
  have z: "halftone_dotSize params 255 255 255 = 0" by (rule halftone_dotSize_white[OF assms(2)])
  show ?thesis
    unfolding halftone_dot_def Let_def px z by simp
qed

lemma halftone_cols_white:
  assumes "white_image img" "\<not> colorMode params" "0 < spacing" "0 < height img"
  shows "0 \<le> x \<Longrightarrow> real (width img) - x \<le> real n * spacing \<Longrightarrow>
         halftone_cols bw img params spacing y x ctx = Some ctx"
proof (induction n arbitrary: x)
  case 0
  then have "\<not> x < real (width img)" by simp
  then show ?case by (subst halftone_cols.simps) simp
next
  case (Suc n)
  show ?case
  proof (cases "x < real (width img)")
    case True
    then have w: "0 < width img" using Suc.prems(1) by (cases "width img") auto
    have dot: "halftone_dot bw img params x y ctx = ctx"
      by (rule halftone_dot_white[OF assms(1,2) w assms(4)])
    have "real (width img) - (x + spacing) \<le> real n * spacing"
      using Suc.prems(2) by (simp add: algebra_simps)
    moreover have "0 \<le> x + spacing" using Suc.prems(1) assms(3) by simp
    ultimately have "halftone_cols bw img params spacing y (x + spacing) ctx = Some ctx"
      by (intro Suc.IH)
    then show ?thesis using True by (subst halftone_cols.simps) (simp add: dot)
  next
    case False
    then show ?thesis by (subst halftone_cols.simps) simp
  qed
qed

lemma steps_exist:
  assumes "0 < (s::real)"
  shows "\<exists>n. a \<le> real n * s"
proof -
  obtain n :: nat where "a / s \<le> real n" using real_arch_simple by blast
  then have "a \<le> real n * s" using assms by (simp add: divide_le_eq)
  then show ?thesis ..
qed

lemma halftone_cols_white_total:
  assumes "white_image img" "\<not> colorMode params" "0 < spacing" "0 < height img" "0 \<le> x"
  shows "halftone_cols bw img params spacing y x ctx = Some ctx"
proof -
  obtain n where "real (width img) - x \<le> real n * spacing"
    using steps_exist[OF assms(3)] by blast
  then show ?thesis by (rule halftone_cols_white[OF assms(1,2,3,4,5)])
qed

lemma halftone_rows_white:
  assumes "white_image img" "\<not> colorMode params" "0 < spacing"
  shows "0 \<le> y \<Longrightarrow> real (height img) - y \<le> real n * spacing \<Longrightarrow>
         halftone_rows bw img params spacing y ctx = Some ctx"
proof (induction n arbitrary: y)
  case 0
  then have "\<not> y < real (height img)" by simp
  then show ?case by (subst halftone_rows.simps) simp
next
  case (Suc n)
  show ?case
  proof (cases "y < real (height img)")
    case True
    then have h: "0 < height img" using Suc.prems(1) by (cases "height img") auto
    have cols: "halftone_cols bw img params spacing y (spacing / 2) ctx = Some ctx"
      using assms(3) by (intro halftone_cols_white_total[OF assms(1,2,3) h]) simp
    have "real (height img) - (y + spacing) \<le> real n * spacing"
      using Suc.prems(2) by (simp add: algebra_simps)
    moreover have "0 \<le> y + spacing" using Suc.prems(1) assms(3) by simp
    ultimately have "halftone_rows bw img params spacing (y + spacing) ctx = Some ctx"
      by (intro Suc.IH)
    then show ?thesis using True by (subst halftone_rows.simps) (simp add: cols)
  next
    case False
    then show ?thesis by (subst halftone_rows.simps) simp
  qed
qed

lemma halftone_spacing_pos: "0 < r \<Longrightarrow> 0 < halftone_spacing r"
  by (simp add: halftone_spacing_def)

lemma halftone_sample_white:
  assumes "white_image img" "0 < width img" "0 < height img"
  shows "data img ! ((nat \<lfloor>max 0 (min y (real (height img) - 1))\<rfloor> * width img
                      + nat \<lfloor>max 0 (min x (real (width img) - 1))\<rfloor>) * 4) = 255"
    and "data img ! ((nat \<lfloor>max 0 (min y (real (height img) - 1))\<rfloor> * width img
                      + nat \<lfloor>max 0 (min x (real (width img) - 1))\<rfloor>) * 4 + 1) = 255"
    and "data img ! ((nat \<lfloor>max 0 (min y (real (height img) - 1))\<rfloor> * width img
                      + nat \<lfloor>max 0 (min x (real (width img) - 1))\<rfloor>) * 4 + 2) = 255"
proof -
  let ?sx = "nat \<lfloor>max 0 (min x (real (width img) - 1))\<rfloor>"
  let ?sy = "nat \<lfloor>max 0 (min y (real (height img) - 1))\<rfloor>"
  have sx: "?sx < width img" by (rule sample_in_range[OF assms(2)])
  have sy: "?sy < height img" by (rule sample_in_range[OF assms(3)])
  have "?sy * width img + ?sx < (?sy + 1) * width img" using sx by simp
  also have "\<dots> \<le> height img * width img" using sy by (intro mult_le_mono1) simp
  finally have p: "?sy * width img + ?sx < width img * height img" by (simp add: mult.commute)
  show "data img ! ((?sy * width img + ?sx) * 4) = 255"
    "data img ! ((?sy * width img + ?sx) * 4 + 1) = 255"
    "data img ! ((?sy * width img + ?sx) * 4 + 2) = 255"
    using assms(1) p unfolding white_image_def by blast+
qed

text \<open>
  Claim C10.  For a buffer whose pixels are all pure white, \<^verbatim>\<open>colorMode = false\<close>,
  a dot radius in \<open>[1, 20]\<close> and any angle and shape: the dot size computed from
  the sample at any position is 0, no lattice point draws anything, the lattice
  loops end, and every byte of the result is 255, as the white background fill
  left it.  The arithmetic on a white sample is exact in doubles (765 / 3,
  255 / 255, 1 - 1, 0 * r); the positions of the lattice points do not matter.
\<close>

theorem halftone_white_stays_white:
  assumes "white_image img" and "\<not> colorMode params"
    and "1 \<le> dotRadius params" and "dotRadius params \<le> 20"
  shows "halftone_dotSize params 255 255 255 = 0
     \<and> (0 < width img \<and> 0 < height img \<longrightarrow>
          (\<forall>x y. (let pixelIndex = (nat \<lfloor>max 0 (min y (real (height img) - 1))\<rfloor> * width img
                                      + nat \<lfloor>max 0 (min x (real (width img) - 1))\<rfloor>) * 4
                   in halftone_dotSize params (data img ! pixelIndex) (data img ! (pixelIndex + 1))
                        (data img ! (pixelIndex + 2)) = 0)
                \<and> (\<forall>c. halftone_dot bw img params x y c = c)))
     \<and> applyHalftoneEffect bw ctx img params =
         Some \<lparr>width = width img, height = height img,
               data = replicate (width img * height img * 4) 255\<rparr>"
proof -
  have sp: "0 < halftone_spacing (dotRadius params)"
    using assms(3) by (intro halftone_spacing_pos) simp
  obtain n where n: "real (height img) - halftone_spacing (dotRadius params) / 2
                       \<le> real n * halftone_spacing (dotRadius params)"
    using steps_exist[OF sp] by blast
  have "halftone_rows bw img params (halftone_spacing (dotRadius params))
          (halftone_spacing (dotRadius params) / 2) (fillRect_white (width img) (height img))
        = Some (fillRect_white (width img) (height img))"
    using sp by (intro halftone_rows_white[OF assms(1,2) sp _ n]) simp
  then have res: "applyHalftoneEffect bw ctx img params =
         Some \<lparr>width = width img, height = height img,
               data = replicate (width img * height img * 4) 255\<rparr>"
    by (simp add: applyHalftoneEffect_def Let_def drawImage_def fillRect_white_def)
  have z: "halftone_dotSize params 255 255 255 = 0" by (rule halftone_dotSize_white[OF assms(2)])
  have pt: "(let pixelIndex = (nat \<lfloor>max 0 (min y (real (height img) - 1))\<rfloor> * width img
                                      + nat \<lfloor>max 0 (min x (real (width img) - 1))\<rfloor>) * 4
                   in halftone_dotSize params (data img ! pixelIndex) (data img ! (pixelIndex + 1))
                        (data img ! (pixelIndex + 2)) = 0)
                \<and> (\<forall>c. halftone_dot bw img params x y c = c)"
    if "0 < width img" "0 < height img" for x y
    unfolding Let_def halftone_sample_white[OF assms(1) that] z
    using halftone_dot_white[OF assms(1,2) that] by simp
  show ?thesis using z pt res by blast
qed

theorem halftone_white_stays_white_witness:
  "applyHalftoneEffect inkBrowser (createImageData 3 2) whiteImage3x2 (initialParams\<lparr>dotRadius := 1\<rparr>)
       = Some \<lparr>width = 3, height = 2, data = replicate 24 255\<rparr>
   \<and> halftone_dot inkBrowser whiteImage3x2 (initialParams\<lparr>dotRadius := 1\<rparr>) (9 / 10) (9 / 10)
         \<lparr>width = 3, height = 2, data = replicate 24 255\<rparr>
       = \<lparr>width = 3, height = 2, data = replicate 24 255\<rparr>"
proof -
  let ?p = "initialParams\<lparr>dotRadius := 1\<rparr>"
  have w: "white_image whiteImage3x2" by (simp add: white_image_def whiteImage3x2_def)
  have c: "\<not> colorMode ?p" by (simp add: initialParams_def)
  have r: "1 \<le> dotRadius ?p" "dotRadius ?p \<le> 20" by simp_all
  have d: "width whiteImage3x2 = 3" "height whiteImage3x2 = 2" by (simp_all add: whiteImage3x2_def)
  note t = halftone_white_stays_white[OF w c r, of inkBrowser "createImageData 3 2", unfolded d]
  have "applyHalftoneEffect inkBrowser (createImageData 3 2) whiteImage3x2 ?p
       = Some \<lparr>width = 3, height = 2, data = replicate (3 * 2 * 4) 255\<rparr>"
    by (rule t[THEN conjunct2, THEN conjunct2])
  moreover have "halftone_dot inkBrowser whiteImage3x2 ?p (9 / 10) (9 / 10)
         \<lparr>width = 3, height = 2, data = replicate 24 255\<rparr>
       = \<lparr>width = 3, height = 2, data = replicate 24 255\<rparr>"
    using t[THEN conjunct2, THEN conjunct1] by simp
  ultimately show ?thesis by simp
qed

text \<open>
  The same call on a black buffer: with radius 1 the lattice has the points
  \<open>(0.9, 0.9)\<close> and \<open>(2.7, 0.9)\<close> inside the 3 by 2 buffer, each draws a dot, and
  the browser of the example blackens the bitmap.
\<close>

lemma halftone_black_is_inked:
  "applyHalftoneEffect inkBrowser (createImageData 3 2) blackImage3x2 (initialParams\<lparr>dotRadius := 1\<rparr>)
     = Some \<lparr>width = 3, height = 2, data = replicate 24 0\<rparr>"
proof -
  let ?p = "initialParams\<lparr>dotRadius := 1\<rparr>"
  let ?white = "\<lparr>width = 3, height = 2, data = replicate 24 (255::int)\<rparr>"
  let ?black = "\<lparr>width = 3, height = 2, data = replicate 24 (0::int)\<rparr>"
  have size: "halftone_dotSize ?p 0 0 0 = 6 / 5"
    by (simp add: halftone_dotSize_def Let_def initialParams_def)
  have blk: "data blackImage3x2 ! (q * 4) = 0 \<and> data blackImage3x2 ! (q * 4 + 1) = 0
             \<and> data blackImage3x2 ! (q * 4 + 2) = 0" if "q < 6" for q
  proof -
    from that consider "q = 0" | "q = 1" | "q = 2" | "q = 3" | "q = 4" | "q = 5" by linarith
    then show ?thesis by cases (simp_all add: blackImage3x2_def)
  qed
  have dot: "halftone_dot inkBrowser blackImage3x2 ?p x y c
               = c\<lparr>data := replicate (length (data c)) 0\<rparr>" for x y c
  proof -
    let ?sx = "nat \<lfloor>max 0 (min x (real (width blackImage3x2) - 1))\<rfloor>"
    let ?sy = "nat \<lfloor>max 0 (min y (real (height blackImage3x2) - 1))\<rfloor>"
    have wh: "width blackImage3x2 = 3" "height blackImage3x2 = 2" by (simp_all add: blackImage3x2_def)
    have "?sx < width blackImage3x2" by (rule sample_in_range) (simp add: wh)
    moreover have "?sy < height blackImage3x2" by (rule sample_in_range) (simp add: wh)
    ultimately have "?sy * width blackImage3x2 + ?sx < 6" unfolding wh by linarith
    from blk[OF this] have px:
      "data blackImage3x2 ! ((?sy * width blackImage3x2 + ?sx) * 4) = 0"
      "data blackImage3x2 ! ((?sy * width blackImage3x2 + ?sx) * 4 + 1) = 0"
      "data blackImage3x2 ! ((?sy * width blackImage3x2 + ?sx) * 4 + 2) = 0"
      by blast+
    show ?thesis
      unfolding halftone_dot_def Let_def px size
      by (simp add: inkBrowser_def plainBrowser_def initialParams_def)
  qed
  have sp: "halftone_spacing 1 = 9 / 5" by (simp add: halftone_spacing_def)
  have cols: "halftone_cols inkBrowser blackImage3x2 ?p (9 / 5) (9 / 10) (9 / 10) ?white = Some ?black"
  proof -
    have 3: "halftone_cols inkBrowser blackImage3x2 ?p (9 / 5) (9 / 10) (9 / 2) ?black = Some ?black"
      by (subst halftone_cols.simps) (simp add: blackImage3x2_def)
    have 2: "halftone_cols inkBrowser blackImage3x2 ?p (9 / 5) (9 / 10) (27 / 10) ?black = Some ?black"
      by (subst halftone_cols.simps) (simp add: dot 3 blackImage3x2_def[THEN arg_cong, of width])
    show ?thesis
      by (subst halftone_cols.simps) (simp add: dot 2 blackImage3x2_def[THEN arg_cong, of width])
  qed
  have rows: "halftone_rows inkBrowser blackImage3x2 ?p (9 / 5) (9 / 10) ?white = Some ?black"
  proof -
    have 2: "halftone_rows inkBrowser blackImage3x2 ?p (9 / 5) (27 / 10) ?black = Some ?black"
      by (subst halftone_rows.simps) (simp add: blackImage3x2_def)
    show ?thesis
      by (subst halftone_rows.simps) (simp add: cols 2 blackImage3x2_def[THEN arg_cong, of height])
  qed
  show ?thesis
    using rows
    by (simp add: applyHalftoneEffect_def Let_def drawImage_def fillRect_white_def sp
          blackImage3x2_def[THEN arg_cong, of width] blackImage3x2_def[THEN arg_cong, of height])
qed

section \<open>Pixelate: one tile over a 2 by 2 buffer\<close>

lemma upt2: "[0 ..< min (0 + 2) (2::nat)] = [0, 1]"
  by (simp add: upt_conv_Cons)

lemma tile_sums_2x2:
  assumes "width img = 2" "height img = 2"
  shows "tile_sums img 2 0 0 =
     (data img ! 0 + data img ! 4 + data img ! 8 + data img ! 12,
      data img ! 1 + data img ! 5 + data img ! 9 + data img ! 13,
      data img ! 2 + data img ! 6 + data img ! 10 + data img ! 14,
      data img ! 3 + data img ! 7 + data img ! 11 + data img ! 15,
      4)"
  unfolding tile_sums_def assms upt2 by (simp add: numeral_2_eq_2)

lemma blank16: "replicate (2 * 2 * 4) (0::int) = [0,0,0,0, 0,0,0,0, 0,0,0,0, 0,0,0,0]"
  by (simp add: eval_nat_numeral)

lemma tile_fill_2x2:
  "tile_fill 2 2 2 0 0 (r, g, b, a) [0,0,0,0, 0,0,0,0, 0,0,0,0, 0,0,0,0] =
     [toUint8Clamp (real_of_int r), toUint8Clamp (real_of_int g), toUint8Clamp (real_of_int b), toUint8Clamp (real_of_int a),
      toUint8Clamp (real_of_int r), toUint8Clamp (real_of_int g), toUint8Clamp (real_of_int b), toUint8Clamp (real_of_int a),
      toUint8Clamp (real_of_int r), toUint8Clamp (real_of_int g), toUint8Clamp (real_of_int b), toUint8Clamp (real_of_int a),
      toUint8Clamp (real_of_int r), toUint8Clamp (real_of_int g), toUint8Clamp (real_of_int b), toUint8Clamp (real_of_int a)]"
  unfolding tile_fill_def upt2 by (simp add: setPixel_def)

lemma rounded_mean4_byte:
  assumes "0 \<le> a \<and> a \<le> 255" "0 \<le> b \<and> b \<le> 255" "0 \<le> c \<and> c \<le> 255" "0 \<le> d \<and> d \<le> 255"
  shows "toUint8Clamp (real_of_int (rounded_mean4 a b c d)) = rounded_mean4 a b c d"
proof -
  have "0 \<le> real_of_int (a + b + c + d) / 4" "real_of_int (a + b + c + d) / 4 \<le> 255"
    using assms by simp_all
  then have "0 \<le> rounded_mean4 a b c d \<and> rounded_mean4 a b c d \<le> 255"
    unfolding rounded_mean4_def Math_round_def by linarith
  then show ?thesis by (simp add: toUint8Clamp_byte)
qed

lemma pixelate_tile_2x2:
  assumes "width img = 2" "height img = 2"
  shows "pixelate_tile img 2 0 0 [0,0,0,0, 0,0,0,0, 0,0,0,0, 0,0,0,0] =
     concat (replicate 4
       [toUint8Clamp (real_of_int (rounded_mean4 (data img ! 0) (data img ! 4) (data img ! 8) (data img ! 12))),
        toUint8Clamp (real_of_int (rounded_mean4 (data img ! 1) (data img ! 5) (data img ! 9) (data img ! 13))),
        toUint8Clamp (real_of_int (rounded_mean4 (data img ! 2) (data img ! 6) (data img ! 10) (data img ! 14))),
        toUint8Clamp (real_of_int (rounded_mean4 (data img ! 3) (data img ! 7) (data img ! 11) (data img ! 15)))])"
  unfolding pixelate_tile_def tile_sums_2x2[OF assms] assms prod.case tile_fill_2x2 rounded_mean4_def
  by (simp add: eval_nat_numeral)

lemma pixelate_cols_2x2:
  assumes "width img = 2"
  shows "pixelate_cols img 2 y 0 out = Some (pixelate_tile img 2 0 y out)"
proof -
  have "pixelate_cols img 2 y (0 + 2) (pixelate_tile img 2 0 y out) = Some (pixelate_tile img 2 0 y out)"
    by (subst pixelate_cols.simps) (simp add: assms)
  then show ?thesis by (subst pixelate_cols.simps) (simp add: assms)
qed

lemma pixelate_rows_2x2:
  assumes "width img = 2" "height img = 2"
  shows "pixelate_rows img 2 0 out = Some (pixelate_tile img 2 0 0 out)"
proof -
  have "pixelate_rows img 2 (0 + 2) (pixelate_tile img 2 0 0 out) = Some (pixelate_tile img 2 0 0 out)"
    by (subst pixelate_rows.simps) (simp add: assms)
  then show ?thesis
    by (subst pixelate_rows.simps) (simp add: assms pixelate_cols_2x2)
qed

lemma valid_byte:
  assumes "valid_image img" "j < width img * height img * 4"
  shows "0 \<le> data img ! j \<and> data img ! j \<le> 255"
proof -
  have "data img ! j \<in> set (data img)" using assms by (intro nth_mem) (simp add: valid_image_def)
  then show ?thesis using assms(1) by (auto simp: valid_image_def)
qed

lemma rounded_mean4_near:
  "\<bar>real_of_int (rounded_mean4 a b c d) - real_of_int (a + b + c + d) / 4\<bar> \<le> 1 / 2"
  unfolding rounded_mean4_def Math_round_def by linarith

lemma pixelate_blocks_2x2:
  assumes "width img = 2" "height img = 2" "valid_image img" "pixelSize params = 2"
  shows "applyPixelateEffect_blocks ctx img params =
     Some \<lparr>width = 2, height = 2,
           data = concat (replicate 4
             [rounded_mean4 (data img ! 0) (data img ! 4) (data img ! 8) (data img ! 12),
              rounded_mean4 (data img ! 1) (data img ! 5) (data img ! 9) (data img ! 13),
              rounded_mean4 (data img ! 2) (data img ! 6) (data img ! 10) (data img ! 14),
              rounded_mean4 (data img ! 3) (data img ! 7) (data img ! 11) (data img ! 15)])\<rparr>"
proof -
  have b: "\<And>j. j < 16 \<Longrightarrow> 0 \<le> data img ! j \<and> data img ! j \<le> 255"
    using valid_byte[OF assms(3)] assms(1,2) by simp
  have m: "toUint8Clamp (real_of_int (rounded_mean4 (data img ! 0) (data img ! 4) (data img ! 8) (data img ! 12)))
             = rounded_mean4 (data img ! 0) (data img ! 4) (data img ! 8) (data img ! 12)"
    "toUint8Clamp (real_of_int (rounded_mean4 (data img ! 1) (data img ! 5) (data img ! 9) (data img ! 13)))
             = rounded_mean4 (data img ! 1) (data img ! 5) (data img ! 9) (data img ! 13)"
    "toUint8Clamp (real_of_int (rounded_mean4 (data img ! 2) (data img ! 6) (data img ! 10) (data img ! 14)))
             = rounded_mean4 (data img ! 2) (data img ! 6) (data img ! 10) (data img ! 14)"
    "toUint8Clamp (real_of_int (rounded_mean4 (data img ! 3) (data img ! 7) (data img ! 11) (data img ! 15)))
             = rounded_mean4 (data img ! 3) (data img ! 7) (data img ! 11) (data img ! 15)"
    by (intro rounded_mean4_byte b; simp)+
  have t: "pixelate_tile img 2 0 0 [0,0,0,0, 0,0,0,0, 0,0,0,0, 0,0,0,0] =
     concat (replicate 4
             [rounded_mean4 (data img ! 0) (data img ! 4) (data img ! 8) (data img ! 12),
              rounded_mean4 (data img ! 1) (data img ! 5) (data img ! 9) (data img ! 13),
              rounded_mean4 (data img ! 2) (data img ! 6) (data img ! 10) (data img ! 14),
              rounded_mean4 (data img ! 3) (data img ! 7) (data img ! 11) (data img ! 15)])"
    unfolding pixelate_tile_2x2[OF assms(1,2)] m ..
  have "replicate 16 (0::int) = [0,0,0,0, 0,0,0,0, 0,0,0,0, 0,0,0,0]"
    using blank16 by simp
  then have r: "pixelate_rows img 2 0 (replicate 16 0) =
      Some (pixelate_tile img 2 0 0 [0,0,0,0, 0,0,0,0, 0,0,0,0, 0,0,0,0])"
    by (simp only: pixelate_rows_2x2[OF assms(1,2)])
  show ?thesis
    by (simp add: applyPixelateEffect_blocks_def Let_def drawImage_def putImageData_def
          createImageData_def assms(1,2,4) r t)
qed

text \<open>
  Claim C3, amended.  For every 2 by 2 buffer of bytes, the tile-averaging
  Pixelate with \<^verbatim>\<open>pixelSize = 2\<close> returns, and all four output pixels carry, per
  channel R, G, B and A, the mean of the four input samples rounded to the
  nearest integer (halves up), which is within one half of the exact mean.  The
  division by 4 is exact in doubles.
\<close>

theorem pixelate_2x2_rounded_mean:
  assumes "width img = 2" and "height img = 2" and "valid_image img" and "pixelSize params = 2"
  shows "applyPixelateEffect_blocks ctx img params =
     Some \<lparr>width = 2, height = 2,
           data = concat (replicate 4
             [rounded_mean4 (data img ! 0) (data img ! 4) (data img ! 8) (data img ! 12),
              rounded_mean4 (data img ! 1) (data img ! 5) (data img ! 9) (data img ! 13),
              rounded_mean4 (data img ! 2) (data img ! 6) (data img ! 10) (data img ! 14),
              rounded_mean4 (data img ! 3) (data img ! 7) (data img ! 11) (data img ! 15)])\<rparr>
     \<and> (\<forall>c<4. \<bar>real_of_int (rounded_mean4 (data img ! c) (data img ! (4 + c))
                                          (data img ! (8 + c)) (data img ! (12 + c)))
                 - real_of_int (data img ! c + data img ! (4 + c) + data img ! (8 + c) + data img ! (12 + c)) / 4\<bar>
               \<le> 1 / 2)"
  using pixelate_blocks_2x2[OF assms] rounded_mean4_near by simp

theorem pixelate_2x2_rounded_mean_witness:
  "applyPixelateEffect_blocks (createImageData 2 2) unevenImage (initialParams\<lparr>pixelSize := 2\<rparr>) =
     Some \<lparr>width = 2, height = 2, data = concat (replicate 4 [0, 10, 20, 255])\<rparr>"
proof -
  have d: "width unevenImage = 2" "height unevenImage = 2" by (simp_all add: unevenImage_def)
  have v: "valid_image unevenImage" by (simp add: valid_image_def unevenImage_def)
  have p: "pixelSize (initialParams\<lparr>pixelSize := 2\<rparr>) = 2" by simp
  have "applyPixelateEffect_blocks (createImageData 2 2) unevenImage (initialParams\<lparr>pixelSize := 2\<rparr>) =
     Some \<lparr>width = 2, height = 2,
           data = concat (replicate 4
             [rounded_mean4 (data unevenImage ! 0) (data unevenImage ! 4) (data unevenImage ! 8) (data unevenImage ! 12),
              rounded_mean4 (data unevenImage ! 1) (data unevenImage ! 5) (data unevenImage ! 9) (data unevenImage ! 13),
              rounded_mean4 (data unevenImage ! 2) (data unevenImage ! 6) (data unevenImage ! 10) (data unevenImage ! 14),
              rounded_mean4 (data unevenImage ! 3) (data unevenImage ! 7) (data unevenImage ! 11) (data unevenImage ! 15)])\<rparr>"
    using pixelate_2x2_rounded_mean[OF d v p, of "createImageData 2 2"] by blast
  then show ?thesis
    by (simp add: unevenImage_def rounded_mean4_def Math_round_def)
qed

text \<open>
  The exact mean is not a byte in general: red samples 0, 0, 0, 1 have mean
  \<open>1/4\<close>, and the output red byte is 0.
\<close>

theorem pixelate_exact_mean_counterexample:
  "real_of_int (data (the (applyPixelateEffect_blocks (createImageData 2 2) unevenImage
                             (initialParams\<lparr>pixelSize := 2\<rparr>))) ! 0)
     \<noteq> real_of_int (data unevenImage ! 0 + data unevenImage ! 4 + data unevenImage ! 8
                      + data unevenImage ! 12) / 4"
proof -
  have d: "width unevenImage = 2" "height unevenImage = 2" by (simp_all add: unevenImage_def)
  have v: "valid_image unevenImage" by (simp add: valid_image_def unevenImage_def)
  have p: "pixelSize (initialParams\<lparr>pixelSize := 2\<rparr>) = 2" by simp
  show ?thesis
    unfolding pixelate_blocks_2x2[OF d v p]
    by (simp add: unevenImage_def rounded_mean4_def Math_round_def eval_nat_numeral)
qed

section \<open>Dispatch: unknown effects and out-of-range parameters\<close>

text \<open>
  Claim C1, amended.  For an effect name that is not one of the eight members
  of \<^verbatim>\<open>EffectType\<close>, dispatch raises nothing: the copies with a \<^verbatim>\<open>default\<close> branch
  draw the input image as it is, and the copy without one runs no algorithm and
  leaves the canvas as it was handed over (cleared).
\<close>

theorem unknown_effect_passes_through:
  assumes "effect \<notin> set effectTypes"
  shows "processEffectWithOptimizedImage bw ctx img effect params = Some img
     \<and> processEffectWithOptimizedImage_nodefault bw ctx img effect params = Some ctx"
  using assms
  by (simp add: processEffectWithOptimizedImage_def processEffectWithOptimizedImage_nodefault_def
        effectTypes_def drawImage_def)

theorem unknown_effect_passes_through_witness:
  "processEffectWithOptimizedImage plainBrowser (createImageData 1 1) darkPixel ''sharpen'' initialParams
     = Some darkPixel
   \<and> processEffectWithOptimizedImage_nodefault plainBrowser (createImageData 1 1) darkPixel ''sharpen'' initialParams
     = Some (createImageData 1 1)"
proof -
  have "''sharpen'' \<notin> set effectTypes" by (simp add: effectTypes_def)
  then show ?thesis by (rule unknown_effect_passes_through)
qed

text \<open>The name \<^verbatim>\<open>sepia\<close> is not an effect; the call returns the input image.\<close>

theorem unknown_effect_counterexample:
  "processEffectWithOptimizedImage plainBrowser (createImageData 1 1) darkPixel ''sepia'' initialParams
     = Some darkPixel"
  by (simp add: processEffectWithOptimizedImage_def drawImage_def)

lemma posterizeLevels_low: "lv < 2 \<Longrightarrow> posterizeLevels lv = 2"
proof -
  assume "lv < 2"
  then have "\<lfloor>lv\<rfloor> < 2" by (simp add: floor_less_iff)
  then show ?thesis by (simp add: posterizeLevels_def)
qed

lemma posterizeLevels_two: "posterizeLevels 2 = 2"
  by (simp add: posterizeLevels_def)

text \<open>
  Claim C2, amended.  No parameter is range-checked.  Posterize with
  \<open>levels < 2\<close> runs as Posterize with two levels (\<^verbatim>\<open>Math.max(2, Math.floor(levels))\<close>)
  and returns its result through either dispatcher.
\<close>

theorem posterize_low_levels_clamped:
  assumes "levels params < 2"
  shows "applyPosterizeEffect ctx img params = applyPosterizeEffect ctx img (params\<lparr>levels := 2\<rparr>)
     \<and> processEffectWithOptimizedImage bw ctx img ''posterize'' params
           = Some (applyPosterizeEffect ctx img (params\<lparr>levels := 2\<rparr>))
     \<and> processEffectWithOptimizedImage_nodefault bw ctx img ''posterize'' params
           = Some (applyPosterizeEffect ctx img (params\<lparr>levels := 2\<rparr>))"
proof -
  have "applyPosterizeEffect ctx img params = applyPosterizeEffect ctx img (params\<lparr>levels := 2\<rparr>)"
    by (simp add: applyPosterizeEffect_def posterizeLevels_low[OF assms] posterizeLevels_two)
  then show ?thesis
    by (simp add: processEffectWithOptimizedImage_def processEffectWithOptimizedImage_nodefault_def)
qed

lemma posterize_darkPixel:
  "applyPosterizeEffect ctx darkPixel (initialParams\<lparr>levels := 2\<rparr>)
     = \<lparr>width = 1, height = 1, data = [0, 0, 0, 255]\<rparr>"
proof -
  have q: "quantLevels_from 2 0 = [0, 255]"
    by (simp add: quantLevels_from_map upt_conv_Cons Math_round_def)
  have "posterize_loop [0, 255] [10, 10, 10, 255] 0 = [0, 0, 0, 255]"
    by (simp add: posterize_loop.simps quantize_def toUint8Clamp_def)
  then show ?thesis
    by (simp add: applyPosterizeEffect_def drawImage_def putImageData_def darkPixel_def
          posterizeLevels_two q)
qed

theorem posterize_low_levels_clamped_witness:
  "processEffectWithOptimizedImage plainBrowser (createImageData 1 1) darkPixel ''posterize''
       (initialParams\<lparr>levels := 0\<rparr>)
     = Some \<lparr>width = 1, height = 1, data = [0, 0, 0, 255]\<rparr>"
proof -
  have "levels (initialParams\<lparr>levels := 0\<rparr>) < 2" by simp
  from posterize_low_levels_clamped[OF this, where bw = plainBrowser and ctx = "createImageData 1 1" and img = darkPixel]
  show ?thesis by (simp add: posterize_darkPixel)
qed

text \<open>
  A call with \<open>levels = 1\<close>, below the declared range, returns a posterized
  buffer.
\<close>

theorem out_of_range_levels_counterexample:
  "processEffectWithOptimizedImage plainBrowser (createImageData 1 1) darkPixel ''posterize''
       (initialParams\<lparr>levels := 1\<rparr>)
     = Some \<lparr>width = 1, height = 1, data = [0, 0, 0, 255]\<rparr>"
proof -
  have "applyPosterizeEffect (createImageData 1 1) darkPixel (initialParams\<lparr>levels := 1\<rparr>)
      = applyPosterizeEffect (createImageData 1 1) darkPixel (initialParams\<lparr>levels := 2\<rparr>)"
    by (simp add: applyPosterizeEffect_def posterizeLevels_def)
  then show ?thesis
    by (simp add: processEffectWithOptimizedImage_def posterize_darkPixel)
qed

text \<open>
  The tile loops of the averaging Pixelate do not advance when \<^verbatim>\<open>pixelSize\<close> is 0:
  on a buffer with at least one pixel the effect never returns.
\<close>

lemma pixelate_cols_returns:
  assumes "pixelate_cols img ps y x out = Some r"
  shows "ps = 0 \<longrightarrow> \<not> x < width img"
  by (rule pixelate_cols.raw_induct
        [where xa = "((((img, ps), y), x), out)"
           and P = "\<lambda>img ps y x out r. ps = 0 \<longrightarrow> \<not> x < width img", simplified, OF _ assms])
     (fastforce split: if_splits)

lemma pixelate_cols_zero_hangs:
  "x < width img \<Longrightarrow> pixelate_cols img 0 y x out = None"
  using pixelate_cols_returns[of img 0 y x out] by (cases "pixelate_cols img 0 y x out") auto

lemma pixelate_zero_hangs:
  assumes "0 < width img" "0 < height img" "pixelSize params = 0"
  shows "applyPixelateEffect_blocks ctx img params = None"
proof -
  have "pixelate_rows img 0 0 out = None" for out
    using assms(1,2) by (subst pixelate_rows.simps) (simp add: pixelate_cols_zero_hangs)
  then show ?thesis
    by (simp add: applyPixelateEffect_blocks_def Let_def drawImage_def assms(3))
qed

end
